theory Spec2Isabelle
  imports Complex_Main
begin

text \<open>
  A model of \<^verbatim>\<open>loadtest.js\<close>, a load generator that replays a Postman collection: the
  configuration is loaded, every virtual user walks over the collection a number of times,
  one request after the other, each result is pushed to a shared list and counted, a
  progress line is written, and at the end the results are summarised per request name.

  The JSON read from the files is typed here: a field is there or not (\<open>option\<close>) and has
  the type that a Postman collection gives it. The network and the clock are parameters.
\<close>

section \<open>JavaScript numbers\<close>

text \<open>
  Every number of \<^verbatim>\<open>loadtest.js\<close> is an IEEE binary64 value. A finite double is a
  rational, so the finite values are \<open>Num q\<close>, and each arithmetic operation rounds its exact
  result to the nearest double, ties to even (\<open>fl\<close>). The exponent range is unbounded here:
  the model is exact while magnitudes stay inside the normal range of binary64, which counts
  and millisecond durations do. Negative zero is identified with zero. Counts and durations
  are integers (\<^verbatim>\<open>length\<close>, \<^verbatim>\<open>++\<close>, \<^verbatim>\<open>Date.now()\<close>); \<open>of_count\<close> and \<open>of_ms\<close> read them as
  numbers, exactly so below \<open>2\<^sup>5\<^sup>3\<close>.
\<close>

datatype number = Num rat | NaN | PosInfinity | NegInfinity

text \<open>The number of binary digits of a positive integer.\<close>

function bitlen :: "int \<Rightarrow> int" where
  "bitlen n = (if n \<le> 0 then 0 else 1 + bitlen (n div 2))"
  by pat_completeness auto
termination
  by (relation "measure nat") auto

declare bitlen.simps [simp del]

definition ilog2 :: "rat \<Rightarrow> int" where
  \<comment> \<open>the binary exponent of a positive rational: \<open>2 powi e \<le> x < 2 powi (e + 1)\<close>\<close>
  "ilog2 x = (let (a, b) = quotient_of x;
                  d = bitlen a - bitlen b
              in if x < 2 powi d then d - 1 else d)"

definition rne :: "rat \<Rightarrow> int" where
  \<comment> \<open>round to the nearest integer, ties to the even one\<close>
  "rne u = (let m = \<lfloor>u\<rfloor>; f = u - of_int m
            in if f < 1/2 then m else if 1/2 < f then m + 1
               else if even m then m else m + 1)"

definition ulp :: "rat \<Rightarrow> rat" where
  \<comment> \<open>the spacing of the doubles in the binade of \<open>x\<close>: 53 significant bits\<close>
  "ulp x = 2 powi (ilog2 x - 52)"

definition fl :: "rat \<Rightarrow> rat" where
  "fl x = (if x = 0 then 0
           else if 0 < x then of_int (rne (x / ulp x)) * ulp x
           else - (of_int (rne (- x / ulp (- x))) * ulp (- x)))"

datatype js_error = TypeError | RangeError

fun js_neg :: "number \<Rightarrow> number" where
  "js_neg (Num a) = Num (- a)"
| "js_neg NaN = NaN"
| "js_neg PosInfinity = NegInfinity"
| "js_neg NegInfinity = PosInfinity"

fun js_add :: "number \<Rightarrow> number \<Rightarrow> number" where
  "js_add (Num a) (Num b) = Num (fl (a + b))"
| "js_add NaN _ = NaN"
| "js_add _ NaN = NaN"
| "js_add PosInfinity NegInfinity = NaN"
| "js_add NegInfinity PosInfinity = NaN"
| "js_add PosInfinity _ = PosInfinity"
| "js_add _ PosInfinity = PosInfinity"
| "js_add NegInfinity _ = NegInfinity"
| "js_add _ NegInfinity = NegInfinity"

definition js_sub :: "number \<Rightarrow> number \<Rightarrow> number" where
  "js_sub a b = js_add a (js_neg b)"

fun js_sign :: "number \<Rightarrow> int" where
  "js_sign (Num a) = (if 0 < a then 1 else if a < 0 then - 1 else 0)"
| "js_sign NaN = 0"
| "js_sign PosInfinity = 1"
| "js_sign NegInfinity = - 1"

fun js_mul :: "number \<Rightarrow> number \<Rightarrow> number" where
  "js_mul (Num a) (Num b) = Num (fl (a * b))"
| "js_mul NaN _ = NaN"
| "js_mul _ NaN = NaN"
| "js_mul a b =
     (if js_sign a * js_sign b = 0 then NaN
      else if 0 < js_sign a * js_sign b then PosInfinity else NegInfinity)"

fun js_div :: "number \<Rightarrow> number \<Rightarrow> number" where
  "js_div (Num a) (Num b) =
     (if b = 0 then (if a = 0 then NaN else if 0 < a then PosInfinity else NegInfinity)
      else Num (fl (a / b)))"
| "js_div NaN _ = NaN"
| "js_div _ NaN = NaN"
| "js_div (Num a) _ = Num 0"
| "js_div PosInfinity (Num b) = (if 0 \<le> b then PosInfinity else NegInfinity)"
| "js_div NegInfinity (Num b) = (if 0 \<le> b then NegInfinity else PosInfinity)"
| "js_div _ _ = NaN"

fun Math_round :: "number \<Rightarrow> number" where
  \<comment> \<open>\<^verbatim>\<open>Math.round\<close>: the nearest integer, a tie going up\<close>
  "Math_round (Num a) = Num (of_int \<lfloor>a + 1/2\<rfloor>)"
| "Math_round x = x"

fun Math_floor :: "number \<Rightarrow> number" where
  "Math_floor (Num a) = Num (of_int \<lfloor>a\<rfloor>)"
| "Math_floor x = x"

fun js_max :: "number \<Rightarrow> number \<Rightarrow> number" where
  "js_max NaN _ = NaN"
| "js_max _ NaN = NaN"
| "js_max PosInfinity _ = PosInfinity"
| "js_max _ PosInfinity = PosInfinity"
| "js_max NegInfinity b = b"
| "js_max a NegInfinity = a"
| "js_max (Num a) (Num b) = Num (max a b)"

fun js_min :: "number \<Rightarrow> number \<Rightarrow> number" where
  "js_min NaN _ = NaN"
| "js_min _ NaN = NaN"
| "js_min NegInfinity _ = NegInfinity"
| "js_min _ NegInfinity = NegInfinity"
| "js_min PosInfinity b = b"
| "js_min a PosInfinity = a"
| "js_min (Num a) (Num b) = Num (min a b)"

text \<open>
  \<^verbatim>\<open>Math.max(...xs)\<close> passes every element of \<open>xs\<close> as an argument of one call, and a
  call with more arguments than the engine admits throws \<^verbatim>\<open>RangeError\<close>. The bound is the
  engine's (it depends on its stack) and not the program's: it is the parameter \<open>maxargs\<close>.
  Of no argument \<^verbatim>\<open>Math.max\<close> is \<^verbatim>\<open>-Infinity\<close>.
\<close>

definition Math_max :: "nat \<Rightarrow> number list \<Rightarrow> js_error + number" where
  "Math_max maxargs xs =
     (if maxargs < length xs then Inl RangeError else Inr (foldl js_max NegInfinity xs))"

definition Math_min :: "nat \<Rightarrow> number list \<Rightarrow> js_error + number" where
  "Math_min maxargs xs =
     (if maxargs < length xs then Inl RangeError else Inr (foldl js_min PosInfinity xs))"

definition of_ms :: "int \<Rightarrow> number" where
  "of_ms d = Num (of_int d)"

definition of_count :: "nat \<Rightarrow> number" where
  "of_count n = Num (of_nat n)"

definition at_index :: "'a list \<Rightarrow> number \<Rightarrow> 'a option" where
  \<comment> \<open>\<^verbatim>\<open>xs[i]\<close> for a number \<open>i\<close>: the element when \<open>i\<close> is an integer inside the array,
     \<^verbatim>\<open>undefined\<close> (\<open>None\<close>) otherwise\<close>
  "at_index xs i =
     (case i of
        Num q \<Rightarrow>
          if of_int \<lfloor>q\<rfloor> = q \<and> 0 \<le> q \<and> nat \<lfloor>q\<rfloor> < length xs
          then Some (xs ! nat \<lfloor>q\<rfloor>) else None
      | _ \<Rightarrow> None)"

definition repeat_count :: "number \<Rightarrow> js_error + nat" where
  \<comment> \<open>the count of \<^verbatim>\<open>String.prototype.repeat\<close>: truncated to an integer, \<^verbatim>\<open>NaN\<close> read as 0,
     a negative or infinite count raising \<^verbatim>\<open>RangeError\<close>\<close>
  "repeat_count n =
     (case n of
        Num q \<Rightarrow> if q \<le> - 1 then Inl RangeError else Inr (nat \<lfloor>q\<rfloor>)
      | NaN \<Rightarrow> Inr 0
      | _ \<Rightarrow> Inl RangeError)"

section \<open>Configuration\<close>

record config =
  collectionPath :: string
  users :: int
  repetitions :: int
  delayMsBetweenUsers :: int

definition DEFAULT_CONFIG :: config where
  "DEFAULT_CONFIG =
     \<lparr>collectionPath = ''./collection.json'', users = 10, repetitions = 1,
      delayMsBetweenUsers = 10\<rparr>"

text \<open>
  The object parsed from \<^verbatim>\<open>config.json\<close>: each field of the configuration is there or
  not. \<open>config_file\<close> is what \<^verbatim>\<open>loadConfig\<close> finds on disk: no file, a file whose reading or
  parsing throws, or a parsed object.
\<close>

record user_config =
  uc_collectionPath :: "string option"
  uc_users :: "int option"
  uc_repetitions :: "int option"
  uc_delayMsBetweenUsers :: "int option"

datatype config_file = NoFile | Unreadable | Parsed user_config

definition spread :: "config \<Rightarrow> user_config \<Rightarrow> config" where
  \<comment> \<open>\<^verbatim>\<open>{ ...DEFAULT_CONFIG, ...userConfig }\<close>: a field of the right operand, where present,
     replaces that of the left\<close>
  "spread d u =
     \<lparr>collectionPath = (case uc_collectionPath u of Some v \<Rightarrow> v | None \<Rightarrow> collectionPath d),
      users = (case uc_users u of Some v \<Rightarrow> v | None \<Rightarrow> users d),
      repetitions = (case uc_repetitions u of Some v \<Rightarrow> v | None \<Rightarrow> repetitions d),
      delayMsBetweenUsers =
        (case uc_delayMsBetweenUsers u of Some v \<Rightarrow> v | None \<Rightarrow> delayMsBetweenUsers d)\<rparr>"

fun loadConfig :: "config_file \<Rightarrow> config" where
  "loadConfig (Parsed userConfig) = spread DEFAULT_CONFIG userConfig"
| "loadConfig Unreadable = DEFAULT_CONFIG"
| "loadConfig NoFile = DEFAULT_CONFIG"

section \<open>The collection and a single request\<close>

datatype url = UrlString string | UrlObject "string option"

record header_entry =
  key :: "string option"
  hvalue :: "string option"

record request_body =
  raw :: "string option"

record request =
  url :: "url option"
  req_method :: "string option"
  header :: "header_entry list option"
  body :: "request_body option"

record item =
  name :: string
  request :: "request option"

record collection_json =
  item :: "item list option"

definition loadCollection :: "collection_json \<Rightarrow> item list" where
  \<comment> \<open>\<^verbatim>\<open>json.item || []\<close>\<close>
  "loadCollection json = (case collection_json.item json of Some xs \<Rightarrow> xs | None \<Rightarrow> [])"

definition property_key :: "string option \<Rightarrow> string" where
  \<comment> \<open>the computed key \<^verbatim>\<open>[h.key]\<close>: a missing key is the string \<^verbatim>\<open>"undefined"\<close>\<close>
  "property_key k = (case k of Some s \<Rightarrow> s | None \<Rightarrow> ''undefined'')"

definition headers_of :: "header_entry list \<Rightarrow> (string \<rightharpoonup> string option)" where
  \<comment> \<open>\<^verbatim>\<open>.reduce((acc, h) => ({ ...acc, [h.key]: h.value }), {})\<close>; a stored value may be
     \<^verbatim>\<open>undefined\<close> (\<open>None\<close>)\<close>
  "headers_of hs = foldl (\<lambda>acc h. acc(property_key (key h) \<mapsto> hvalue h)) Map.empty hs"

record axios_config =
  cfg_method :: string
  cfg_url :: "string option"
  cfg_headers :: "string \<rightharpoonup> string option"
  cfg_data :: "string option"
  cfg_timeout :: nat

text \<open>
  What the awaited \<^verbatim>\<open>axios\<close> call does, together with the clock: a response with its status
  (\<^verbatim>\<open>validateStatus: () => true\<close> accepts every status), or a rejected promise; each with
  the milliseconds \<^verbatim>\<open>Date.now() - start\<close> read afterwards.
\<close>

datatype outcome = Response int int | Failure int

record result =
  name :: string
  status :: int
  duration :: int
  success :: bool

definition resolve_request :: "item \<Rightarrow> js_error + axios_config" where
  \<comment> \<open>the first five lines of \<^verbatim>\<open>runRequest\<close>; reading a property of \<^verbatim>\<open>undefined\<close> throws\<close>
  "resolve_request it =
     (case item.request it of
        None \<Rightarrow> Inl TypeError
      | Some req \<Rightarrow>
          (case request.url req of
             None \<Rightarrow> Inl TypeError
           | Some u \<Rightarrow>
               Inr \<lparr>cfg_method =
                      (case req_method req of None \<Rightarrow> ''GET''
                       | Some m \<Rightarrow> if m = [] then ''GET'' else m),
                    cfg_url = (case u of UrlString s \<Rightarrow> Some s | UrlObject r \<Rightarrow> r),
                    cfg_headers = headers_of (case header req of None \<Rightarrow> [] | Some hs \<Rightarrow> hs),
                    cfg_data =
                      (case body req of None \<Rightarrow> None
                       | Some b \<Rightarrow>
                           (case raw b of None \<Rightarrow> None
                            | Some s \<Rightarrow> if s = [] then None else Some s)),
                    cfg_timeout = 10000\<rparr>))"

definition runRequest :: "(axios_config \<Rightarrow> outcome) \<Rightarrow> item \<Rightarrow> js_error + result" where
  "runRequest net it =
     (case resolve_request it of
        Inl e \<Rightarrow> Inl e
      | Inr cfg \<Rightarrow>
          (case net cfg of
             Response st d \<Rightarrow>
               Inr \<lparr>name = item.name it, status = st, duration = d,
                    success = (200 \<le> st \<and> st < 400)\<rparr>
           | Failure d \<Rightarrow>
               Inr \<lparr>name = item.name it, status = 0, duration = d, success = False\<rparr>))"

section \<open>The load simulation\<close>

definition totalRequests :: "config \<Rightarrow> item list \<Rightarrow> int" where
  \<comment> \<open>\<^verbatim>\<open>config.users * config.repetitions * collection.length\<close>: the product of the
     integers, which the doubles give exactly while it stays below \<open>2\<^sup>5\<^sup>3\<close>\<close>
  "totalRequests cfg collection = users cfg * repetitions cfg * int (length collection)"

definition progress_percentage :: "nat \<Rightarrow> int \<Rightarrow> number" where
  \<comment> \<open>\<^verbatim>\<open>Math.round((completedRequests / totalRequests) * 100)\<close>\<close>
  "progress_percentage c t =
     Math_round (js_mul (js_div (of_count c) (Num (of_int t))) (Num 100))"

record progress_line =
  percentage :: number
  completed :: nat
  remaining :: nat
  shown_completedRequests :: nat
  shown_totalRequests :: int

definition updateProgress :: "nat \<Rightarrow> int \<Rightarrow> js_error + progress_line" where
  "updateProgress c t =
     (let p = progress_percentage c t;
          half = Math_floor (js_div p (Num 2))
      in case repeat_count half of
           Inl e \<Rightarrow> Inl e
         | Inr a \<Rightarrow>
             (case repeat_count (js_sub (Num 50) half) of
                Inl e \<Rightarrow> Inl e
              | Inr b \<Rightarrow>
                  Inr \<lparr>percentage = p, completed = a, remaining = b,
                       shown_completedRequests = c, shown_totalRequests = t\<rparr>))"

text \<open>
  A virtual user is the body of one timer callback: it walks \<open>repetitions\<close> times over the
  collection, awaiting one request at a time. \<open>Running todo\<close> holds the requests it has still
  to make, in order. When the list is exhausted the callback calls \<^verbatim>\<open>resolve()\<close>. When
  \<^verbatim>\<open>runRequest\<close> or \<^verbatim>\<open>updateProgress\<close> throws, the callback's own promise is rejected,
  \<^verbatim>\<open>resolve()\<close> is never reached and the task stays pending for ever: \<open>Crashed\<close>.

  The tasks are made by \<^verbatim>\<open>Array.from({ length: config.users })\<close>: as many as \<open>users\<close>, none
  for a length below 1, and for a length of \<open>2\<^sup>3\<^sup>2\<close> or more, which no array has, a
  \<^verbatim>\<open>RangeError\<close>. It is thrown inside \<^verbatim>\<open>simulateLoad\<close> before any timer is set: the run has
  no task then, and \<open>thrown\<close> holds the error.
\<close>

datatype task = Running "item list" | Resolved | Crashed js_error

definition Array_from_length :: "int \<Rightarrow> js_error + nat" where
  "Array_from_length n = (if 2 ^ 32 \<le> n then Inl RangeError else Inr (nat n))"

record run =
  results :: "result list"
  completedRequests :: nat
  stdout :: "progress_line list"
  tasks :: "task list"
  thrown :: "js_error option"

definition start :: "config \<Rightarrow> item list \<Rightarrow> run" where
  \<comment> \<open>the two nested loops of a user are unrolled into the list of its requests\<close>
  "start cfg collection =
     (case Array_from_length (users cfg) of
        Inl e \<Rightarrow>
          \<lparr>results = [], completedRequests = 0, stdout = [], tasks = [], thrown = Some e\<rparr>
      | Inr n \<Rightarrow>
          \<lparr>results = [], completedRequests = 0, stdout = [],
           tasks = replicate n (Running (concat (replicate (nat (repetitions cfg)) collection))),
           thrown = None\<rparr>)"

text \<open>
  JavaScript runs one callback at a time, so between two \<^verbatim>\<open>await\<close>s a user is not
  interrupted. An event \<open>(i, net)\<close> is user \<open>i\<close> continuing after its \<^verbatim>\<open>await\<close>, with \<open>net\<close>
  the behaviour of the network and the clock for the request it was waiting for: the result
  is pushed, the counter incremented and the progress line written, in one piece. The timers
  and the waits decide only the order of the events; every order is a list of events.
\<close>

type_synonym event = "nat \<times> (axios_config \<Rightarrow> outcome)"

definition set_task :: "nat \<Rightarrow> task \<Rightarrow> run \<Rightarrow> run" where
  "set_task i u s = s\<lparr>tasks := (tasks s)[i := u]\<rparr>"

definition step :: "int \<Rightarrow> run \<Rightarrow> event \<Rightarrow> run" where
  "step t s ev =
     (case ev of (i, net) \<Rightarrow>
        if i < length (tasks s) then
          (case tasks s ! i of
             Running [] \<Rightarrow> set_task i Resolved s
           | Running (it # todo) \<Rightarrow>
               (case runRequest net it of
                  Inl e \<Rightarrow> set_task i (Crashed e) s
                | Inr r \<Rightarrow>
                    (let s' = s\<lparr>results := results s @ [r],
                                 completedRequests := completedRequests s + 1\<rparr>
                     in case updateProgress (completedRequests s') t of
                          Inl e \<Rightarrow> set_task i (Crashed e) s'
                        | Inr line \<Rightarrow>
                            set_task i (Running todo) (s'\<lparr>stdout := stdout s' @ [line]\<rparr>)))
           | _ \<Rightarrow> s)
        else s)"

definition run_events :: "config \<Rightarrow> item list \<Rightarrow> event list \<Rightarrow> run" where
  "run_events cfg collection evs =
     foldl (step (totalRequests cfg collection)) (start cfg collection) evs"

definition all_resolved :: "run \<Rightarrow> bool" where
  \<comment> \<open>\<^verbatim>\<open>await Promise.all(tasks)\<close> is reached and returns\<close>
  "all_resolved s \<longleftrightarrow> thrown s = None \<and> list_all (\<lambda>u. u = Resolved) (tasks s)"

section \<open>The summary\<close>

record tally =
  times :: "int list"
  errors :: nat

definition Object_prototype_keys :: "string list" where
  "Object_prototype_keys =
     [''constructor'', ''__defineGetter__'', ''__defineSetter__'', ''hasOwnProperty'',
      ''__lookupGetter__'', ''__lookupSetter__'', ''isPrototypeOf'', ''propertyIsEnumerable'',
      ''toString'', ''valueOf'', ''__proto__'', ''toLocaleString'']"

definition add_result :: "(string \<times> tally) list \<Rightarrow> result \<Rightarrow> js_error + (string \<times> tally) list" where
  \<comment> \<open>one turn of the first loop of \<^verbatim>\<open>showSummary\<close>. \<^verbatim>\<open>summary[r.name]\<close> of a name that
     \<^verbatim>\<open>Object.prototype\<close> has is an inherited, truthy member without \<^verbatim>\<open>times\<close>, and the push
     throws\<close>
  "add_result summary r =
     (let e = (if success r then 0 else 1) in
      if result.name r \<in> set Object_prototype_keys then Inl TypeError
      else if result.name r \<in> set (map fst summary) then
        Inr (map (\<lambda>(k, d). if k = result.name r
                             then (k, d\<lparr>times := times d @ [duration r], errors := errors d + e\<rparr>)
                             else (k, d)) summary)
      else Inr (summary @ [(result.name r, \<lparr>times = [duration r], errors = e\<rparr>)]))"

fun group_results :: "(string \<times> tally) list \<Rightarrow> result list \<Rightarrow> js_error + (string \<times> tally) list" where
  "group_results summary [] = Inr summary"
| "group_results summary (r # rs) =
     (case add_result summary r of Inl e \<Rightarrow> Inl e | Inr summary' \<Rightarrow> group_results summary' rs)"

definition sum_numbers :: "number list \<Rightarrow> number" where
  \<comment> \<open>\<^verbatim>\<open>.reduce((a, b) => a + b, 0)\<close>\<close>
  "sum_numbers xs = foldl js_add (Num 0) xs"

definition p95_index :: "nat \<Rightarrow> number" where
  \<comment> \<open>\<^verbatim>\<open>Math.floor(0.95 * sorted.length)\<close>; the literal is the double nearest to 95/100\<close>
  "p95_index n = Math_floor (js_mul (Num (fl (95 / 100))) (of_count n))"

definition p95 :: "int list \<Rightarrow> int option" where
  "p95 ts = (let sorted = sort ts in at_index sorted (p95_index (length sorted)))"

definition rate :: "nat \<Rightarrow> nat \<Rightarrow> number" where
  \<comment> \<open>\<^verbatim>\<open>Math.round(((count - errors) / count) * 100)\<close>\<close>
  "rate count errs =
     Math_round (js_mul (js_div (js_sub (of_count count) (of_count errs)) (of_count count))
                   (Num 100))"

record summary_row =
  row_name :: string
  row_count :: nat
  row_errors :: nat
  row_avg :: number
  row_max :: number
  row_min :: number
  row_p95 :: "int option"
  row_successRate :: number

definition make_row :: "nat \<Rightarrow> string \<times> tally \<Rightarrow> js_error + summary_row" where
  \<comment> \<open>one turn of the second loop of \<^verbatim>\<open>showSummary\<close>, in the order of its lines\<close>
  "make_row maxargs entry =
     (case entry of (nm, d) \<Rightarrow>
        let count = length (times d);
            total = sum_numbers (map of_ms (times d));
            avg = Math_round (js_div total (of_count count))
        in case Math_max maxargs (map of_ms (times d)) of
             Inl e \<Rightarrow> Inl e
           | Inr mx \<Rightarrow>
               (case Math_min maxargs (map of_ms (times d)) of
                  Inl e \<Rightarrow> Inl e
                | Inr mn \<Rightarrow>
                    Inr \<lparr>row_name = nm, row_count = count, row_errors = errors d,
                         row_avg = avg, row_max = mx, row_min = mn,
                         row_p95 = p95 (times d),
                         row_successRate = rate count (errors d)\<rparr>))"

fun make_rows :: "nat \<Rightarrow> (string \<times> tally) list \<Rightarrow> js_error + summary_row list" where
  "make_rows maxargs [] = Inr []"
| "make_rows maxargs (e # es) =
     (case make_row maxargs e of
        Inl x \<Rightarrow> Inl x
      | Inr row \<Rightarrow>
          (case make_rows maxargs es of Inl x \<Rightarrow> Inl x | Inr rows \<Rightarrow> Inr (row # rows)))"

text \<open>
  \<^verbatim>\<open>Object.entries\<close> lists the names that are array indices first, in ascending order,
  and then the other names in the order in which they were created. An array index is a
  decimal numeral without a leading zero whose value is below \<open>2\<^sup>3\<^sup>2 - 1\<close>.
\<close>

definition digit_value :: "char \<Rightarrow> nat option" where
  "digit_value c =
     (let n = (of_char c :: nat) in if 48 \<le> n \<and> n \<le> 57 then Some (n - 48) else None)"

fun decimal_value :: "nat \<Rightarrow> string \<Rightarrow> nat option" where
  "decimal_value acc [] = Some acc"
| "decimal_value acc (c # cs) =
     (case digit_value c of None \<Rightarrow> None | Some d \<Rightarrow> decimal_value (10 * acc + d) cs)"

definition array_index :: "string \<Rightarrow> nat option" where
  "array_index s =
     (if s = [] \<or> (hd s = CHR ''0'' \<and> tl s \<noteq> []) then None
      else case decimal_value 0 s of
             None \<Rightarrow> None
           | Some n \<Rightarrow> if n < 2 ^ 32 - 1 then Some n else None)"

definition Object_entries :: "(string \<times> 'a) list \<Rightarrow> (string \<times> 'a) list" where
  "Object_entries obj =
     sort_key (\<lambda>e. case array_index (fst e) of Some n \<Rightarrow> n | None \<Rightarrow> 0)
       (filter (\<lambda>e. array_index (fst e) \<noteq> None) obj)
     @ filter (\<lambda>e. array_index (fst e) = None) obj"

record report =
  table :: "summary_row list"
  shown_total :: nat
  shown_errors :: nat
  globalSuccessRate :: number
  globalAvgTime :: number

definition showSummary :: "nat \<Rightarrow> result list \<Rightarrow> js_error + report" where
  "showSummary maxargs rs =
     (case group_results [] rs of
        Inl e \<Rightarrow> Inl e
      | Inr summary \<Rightarrow>
          (case make_rows maxargs (Object_entries summary) of
             Inl e \<Rightarrow> Inl e
           | Inr rows \<Rightarrow>
               (let total = length rs;
                    totalErrors = foldl (\<lambda>acc d. acc + errors d) 0 (map snd summary);
                    allTimes = map (\<lambda>r. of_ms (duration r)) rs
                in Inr \<lparr>table = rows,
                        shown_total = total,
                        shown_errors = totalErrors,
                        globalSuccessRate = rate total totalErrors,
                        globalAvgTime =
                          Math_round
                            (js_div (sum_numbers allTimes) (of_count (length allTimes)))\<rparr>)))"

definition simulateLoad ::
  "nat \<Rightarrow> config \<Rightarrow> collection_json \<Rightarrow> event list \<Rightarrow> (js_error + report) option" where
  \<comment> \<open>the call of \<^verbatim>\<open>showSummary\<close> that ends \<^verbatim>\<open>simulateLoad\<close>, when it is reached. \<open>None\<close>: it
     is not, because \<^verbatim>\<open>Promise.all\<close> is still waiting after these events or because
     \<^verbatim>\<open>Array.from\<close> has thrown\<close>
  "simulateLoad maxargs cfg json evs =
     (let s = run_events cfg (loadCollection json) evs
      in if all_resolved s then Some (showSummary maxargs (results s)) else None)"

section \<open>Notions used in the proofs\<close>

text \<open>
  \<open>pending\<close> counts the requests a user has still to make and \<open>outstanding\<close> sums it over
  the users; \<open>work\<close> is that sum at the start.
\<close>

fun pending :: "task \<Rightarrow> nat" where
  "pending (Running todo) = length todo"
| "pending _ = 0"

definition outstanding :: "run \<Rightarrow> nat" where
  "outstanding s = sum_list (map pending (tasks s))"

definition spawned :: "config \<Rightarrow> nat" where
  \<comment> \<open>the number of tasks of \<open>start\<close>\<close>
  "spawned cfg = (case Array_from_length (users cfg) of Inl e \<Rightarrow> 0 | Inr n \<Rightarrow> n)"

definition work :: "config \<Rightarrow> item list \<Rightarrow> nat" where
  \<comment> \<open>the requests that the users of \<open>start\<close> have to make, all together\<close>
  "work cfg collection = spawned cfg * (nat (repetitions cfg) * length collection)"

definition group_of :: "string \<Rightarrow> result list \<Rightarrow> int list" where
  \<comment> \<open>the durations of the results of one name, in the order of the results\<close>
  "group_of k rs = map duration (filter (\<lambda>r. result.name r = k) rs)"

definition groups_of :: "result list \<Rightarrow> (string \<times> tally) list \<Rightarrow> bool" where
  \<comment> \<open>\<open>summary\<close> holds one entry for each name of \<open>rs\<close>, with the durations of that name\<close>
  "groups_of rs summary \<longleftrightarrow>
     distinct (map fst summary) \<and> fst ` set summary = result.name ` set rs
     \<and> (\<forall>(k, d) \<in> set summary. times d = group_of k rs)"

fun crashed :: "task \<Rightarrow> bool" where
  "crashed (Crashed _) = True"
| "crashed _ = False"

fun reach :: "task \<Rightarrow> nat" where
  \<comment> \<open>how many of its requests a user can make before the first template without \<open>request\<close>\<close>
  "reach (Running todo) = length (takeWhile (\<lambda>it. item.request it \<noteq> None) todo)"
| "reach _ = 0"

definition one_each :: "nat \<Rightarrow> (axios_config \<Rightarrow> outcome) \<Rightarrow> event list" where
  \<comment> \<open>one event for each of \<open>n\<close> users\<close>
  "one_each n net = map (\<lambda>i. (i, net)) [0..<n]"

definition empty_report :: report where
  "empty_report =
     \<lparr>table = [], shown_total = 0, shown_errors = 0, globalSuccessRate = NaN,
      globalAvgTime = NaN\<rparr>"

section \<open>Example inputs\<close>

definition ping :: item where
  "ping =
     \<lparr>item.name = ''ping'',
      request = Some \<lparr>url = Some (UrlString ''http://example.test/ok''),
                       req_method = Some ''GET'', header = None, body = None\<rparr>\<rparr>"

definition ping_cfg :: axios_config where
  "ping_cfg =
     \<lparr>cfg_method = ''GET'', cfg_url = Some ''http://example.test/ok'',
      cfg_headers = Map.empty, cfg_data = None, cfg_timeout = 10000\<rparr>"

definition folder :: item where
  "folder = \<lparr>item.name = ''folder'', request = None\<rparr>"

definition no_templates :: collection_json where
  "no_templates = \<lparr>item = Some []\<rparr>"

definition out_of_range :: user_config where
  "out_of_range =
     \<lparr>uc_collectionPath = None, uc_users = Some 0, uc_repetitions = Some (- 3),
      uc_delayMsBetweenUsers = None\<rparr>"

definition node_arguments :: nat where
  \<comment> \<open>an argument limit of the size that the default stack of Node gives\<close>
  "node_arguments = 125000"

definition cfg_huge :: config where
  "cfg_huge = \<lparr>collectionPath = ''./collection.json'', users = 4294967296, repetitions = 1,
               delayMsBetweenUsers = 10\<rparr>"

definition cfg_negative :: config where
  "cfg_negative = \<lparr>collectionPath = ''./collection.json'', users = 2, repetitions = - 3,
                   delayMsBetweenUsers = 10\<rparr>"

definition cfg1 :: config where
  "cfg1 = \<lparr>collectionPath = ''./collection.json'', users = 1, repetitions = 1,
           delayMsBetweenUsers = 10\<rparr>"

definition cfg2 :: config where
  "cfg2 = \<lparr>collectionPath = ''./collection.json'', users = 2, repetitions = 1,
           delayMsBetweenUsers = 0\<rparr>"

definition cfg3 :: config where
  "cfg3 = \<lparr>collectionPath = ''./collection.json'', users = 3, repetitions = 1,
           delayMsBetweenUsers = 10\<rparr>"

definition ok50 :: "axios_config \<Rightarrow> outcome" where
  "ok50 = (\<lambda>_. Response 200 50)"

definition same_user_thrice :: "event list" where
  "same_user_thrice = [(0, ok50), (0, ok50), (0, ok50)]"

definition three_events :: "event list" where
  "three_events = [(0, ok50), (1, ok50), (2, ok50)]"

definition four_events :: "event list" where
  "four_events = [(0, ok50), (1, ok50), (1, ok50), (0, ok50)]"




section \<open>Rounding to a double\<close>

text \<open>
  \<open>fl\<close> rounds a positive rational to a multiple of the \<open>ulp\<close> of its binade, at a
  distance of half an \<open>ulp\<close> at most; it is monotone and leaves the integers used below
  unchanged.
\<close>

lemma bitlen_nonneg: "0 \<le> bitlen n"
  by (induction n rule: bitlen.induct) (subst bitlen.simps, simp)

lemma bitlen_pos: "0 < n \<Longrightarrow> 0 < bitlen n"
  using bitlen_nonneg [of "n div 2"] by (subst bitlen.simps) simp

lemma bitlen_bounds:
  "0 < n \<Longrightarrow> 2 ^ nat (bitlen n - 1) \<le> n \<and> n < 2 ^ nat (bitlen n)"
proof (induction n rule: bitlen.induct)
  case (1 n)
  show ?case
  proof (cases "n = 1")
    case True
    have "bitlen 1 = 1" by (simp add: bitlen.simps[of 1] bitlen.simps[of 0])
    with True show ?thesis by simp
  next
    case False
    with "1.prems" have h: "0 < n div 2" by simp
    then have IH: "2 ^ nat (bitlen (n div 2) - 1) \<le> n div 2" "n div 2 < 2 ^ nat (bitlen (n div 2))"
      using "1.IH" "1.prems" by auto
    have bl: "bitlen n = 1 + bitlen (n div 2)" using "1.prems" by (simp add: bitlen.simps[of n])
    have p: "0 < bitlen (n div 2)" using h by (rule bitlen_pos)
    have e1: "nat (bitlen n - 1) = Suc (nat (bitlen (n div 2) - 1))" using bl p by simp
    have e2: "nat (bitlen n) = Suc (nat (bitlen (n div 2)))" using bl p by simp
    show ?thesis unfolding e1 e2 using IH by simp linarith
  qed
qed

lemma bitlen_bounds_rat:
  assumes "0 < n"
  shows "(2::rat) powi (bitlen n - 1) \<le> of_int n" and "(of_int n :: rat) < 2 powi bitlen n"
proof -
  from assms have p: "0 < bitlen n" by (rule bitlen_pos)
  from bitlen_bounds [OF assms]
  have a: "2 ^ nat (bitlen n - 1) \<le> n" and b: "n < 2 ^ nat (bitlen n)" by simp_all
  have "(of_int (2 ^ nat (bitlen n - 1)) :: rat) \<le> of_int n" using a by (simp only: of_int_le_iff)
  then show "(2::rat) powi (bitlen n - 1) \<le> of_int n" using p by (simp add: power_int_def)
  have "(of_int n :: rat) < of_int (2 ^ nat (bitlen n))" using b by (simp only: of_int_less_iff)
  then show "(of_int n :: rat) < 2 powi bitlen n" using p by (simp add: power_int_def)
qed

lemma ilog2_bounds:
  assumes "0 < x"
  shows "2 powi ilog2 x \<le> x" and "x < 2 powi (ilog2 x + 1)"
proof -
  obtain a b where q: "quotient_of x = (a, b)" by (cases "quotient_of x")
  then have b: "0 < b" by (rule quotient_of_denom_pos)
  have x: "x = of_int a / of_int b" using q by (rule quotient_of_div)
  have a: "0 < a" using assms b unfolding x by (simp add: zero_less_divide_iff)
  define d where "d = bitlen a - bitlen b"
  have e: "ilog2 x = (if x < 2 powi d then d - 1 else d)"
    by (simp add: ilog2_def q d_def Let_def)
  have br: "0 < (of_int b :: rat)" using b by simp
  have up: "x < 2 powi (d + 1)"
  proof -
    have "x * of_int b < 2 powi bitlen a" using bitlen_bounds_rat(2) [OF a] br by (simp add: x)
    also have "\<dots> = 2 powi (d + 1) * 2 powi (bitlen b - 1)"
      by (simp add: d_def flip: power_int_add)
    also have "\<dots> \<le> 2 powi (d + 1) * of_int b"
      using bitlen_bounds_rat(1) [OF b] by (simp add: mult_left_mono)
    finally show ?thesis using br by simp
  qed
  have lo: "2 powi (d - 1) \<le> x"
  proof -
    have "2 powi (d - 1) * of_int b \<le> 2 powi (d - 1) * (2::rat) powi bitlen b"
      using bitlen_bounds_rat(2) [OF b] by (simp add: mult_left_mono)
    also have "\<dots> = 2 powi (bitlen a - 1)"
      by (simp add: d_def flip: power_int_add)
    also have "\<dots> \<le> x * of_int b" using bitlen_bounds_rat(1) [OF a] br by (simp add: x)
    finally show ?thesis using br by simp
  qed
  show "2 powi ilog2 x \<le> x" using lo by (simp add: e)
  show "x < 2 powi (ilog2 x + 1)" using up by (simp add: e)
qed

lemma pow2_less_D: "(2::rat) powi m < 2 powi n \<Longrightarrow> m < n"
proof (rule ccontr)
  assume a: "(2::rat) powi m < 2 powi n" and "\<not> m < n"
  then have "n \<le> m" by simp
  then have "(2::rat) powi n \<le> 2 powi m" by (rule power_int_increasing) simp
  with a show False by simp
qed

lemma ilog2_mono:
  assumes "0 < x" "x \<le> y"
  shows "ilog2 x \<le> ilog2 y"
proof -
  have y: "0 < y" using assms by simp
  have "(2::rat) powi ilog2 x < 2 powi (ilog2 y + 1)"
    using ilog2_bounds(1) [OF assms(1)] ilog2_bounds(2) [OF y] assms(2) by simp
  then have "ilog2 x < ilog2 y + 1" by (rule pow2_less_D)
  then show ?thesis by simp
qed

lemma rne_close: "\<bar>of_int (rne u) - u\<bar> \<le> 1/2"
proof -
  have "of_int \<lfloor>u\<rfloor> \<le> u" "u < of_int \<lfloor>u\<rfloor> + 1" by linarith+
  then show ?thesis unfolding rne_def Let_def by (simp add: abs_le_iff)
qed

lemma rne_near:
  assumes "\<bar>u - of_int j\<bar> < 1/2"
  shows "rne u = j"
proof -
  have "\<bar>(of_int (rne u) :: rat) - of_int j\<bar> < 1" using rne_close [of u] assms by linarith
  then have "\<bar>(of_int (rne u - j) :: rat)\<bar> < of_int 1" by simp
  then have "\<bar>rne u - j\<bar> < 1" unfolding of_int_abs [symmetric] of_int_less_iff .
  then show ?thesis by simp
qed

lemma rne_of_int: "rne (of_int j) = j"
  by (rule rne_near) simp

lemma rne_mono:
  assumes "u \<le> v"
  shows "rne u \<le> rne v"
proof (cases "\<lfloor>u\<rfloor> = \<lfloor>v\<rfloor>")
  case True
  then show ?thesis using assms unfolding rne_def Let_def by auto
next
  case False
  with assms have "\<lfloor>u\<rfloor> + 1 \<le> \<lfloor>v\<rfloor>" using floor_mono [OF assms] by linarith
  moreover have "rne u \<le> \<lfloor>u\<rfloor> + 1" unfolding rne_def Let_def by auto
  moreover have "\<lfloor>v\<rfloor> \<le> rne v" unfolding rne_def Let_def by auto
  ultimately show ?thesis by linarith
qed

lemma ulp_pos: "0 < ulp x"
  by (simp add: ulp_def)

lemma fl_pos_eq: "0 < x \<Longrightarrow> fl x = of_int (rne (x / ulp x)) * ulp x"
  by (simp add: fl_def)

lemma scaled_bounds:
  assumes "0 < x"
  shows "2 ^ 52 \<le> x / ulp x" and "x / ulp x < 2 ^ 53"
proof -
  have u: "ulp x * 2 ^ 52 = 2 powi ilog2 x"
    by (simp add: ulp_def power_int_diff)
  have v: "ulp x * 2 ^ 53 = 2 powi (ilog2 x + 1)"
    by (simp add: ulp_def power_int_diff power_int_add)
  show "2 ^ 52 \<le> x / ulp x"
    using ilog2_bounds(1) [OF assms] ulp_pos [of x] u
    by (simp add: pos_le_divide_eq mult.commute)
  show "x / ulp x < 2 ^ 53"
    using ilog2_bounds(2) [OF assms] ulp_pos [of x] v
    by (simp add: pos_divide_less_eq mult.commute)
qed

lemma fl_error:
  assumes "0 < x"
  shows "\<bar>fl x - x\<bar> \<le> ulp x / 2"
proof -
  have "(of_int (rne (x / ulp x)) - x / ulp x) * ulp x = fl x - x"
    using ulp_pos [of x] by (simp add: fl_pos_eq assms left_diff_distrib)
  then have "\<bar>fl x - x\<bar> = \<bar>(of_int (rne (x / ulp x)) - x / ulp x) * ulp x\<bar>" by simp
  also have "\<dots> = \<bar>of_int (rne (x / ulp x)) - x / ulp x\<bar> * ulp x"
    using ulp_pos [of x] by (simp only: abs_mult abs_of_pos)
  also have "\<dots> \<le> (1/2) * ulp x"
    using rne_close [of "x / ulp x"] ulp_pos [of x] by (intro mult_right_mono) simp_all
  finally show ?thesis by simp
qed

lemma ulp_le: 
  assumes "0 < x"
  shows "ulp x \<le> x / 2 ^ 52"
  using scaled_bounds(1) [OF assms] ulp_pos [of x] by (simp add: field_simps)

lemma fl_rel_error:
  assumes "0 < x"
  shows "\<bar>fl x - x\<bar> \<le> x / 2 ^ 53"
  using fl_error [OF assms] ulp_le [OF assms] by simp

lemma fl_binade:
  assumes "0 < x"
  shows "2 powi ilog2 x \<le> fl x" and "fl x \<le> 2 powi (ilog2 x + 1)"
proof -
  have u: "2 ^ 52 * ulp x = 2 powi ilog2 x"
    by (simp add: ulp_def power_int_diff)
  have v: "2 ^ 53 * ulp x = 2 powi (ilog2 x + 1)"
    by (simp add: ulp_def power_int_diff power_int_add)
  have "rne (of_int (2 ^ 52)) \<le> rne (x / ulp x)"
    using scaled_bounds(1) [OF assms] by (intro rne_mono) simp
  then have "(2::int) ^ 52 \<le> rne (x / ulp x)" by (simp only: rne_of_int)
  then have "(of_int (2 ^ 52) :: rat) \<le> of_int (rne (x / ulp x))" by (simp only: of_int_le_iff)
  then have "2 ^ 52 * ulp x \<le> of_int (rne (x / ulp x)) * ulp x"
    using ulp_pos [of x] by (intro mult_right_mono) simp_all
  then show "2 powi ilog2 x \<le> fl x" by (simp only: u fl_pos_eq [OF assms])
  have "rne (x / ulp x) \<le> rne (of_int (2 ^ 53))"
    using scaled_bounds(2) [OF assms] by (intro rne_mono) simp
  then have "rne (x / ulp x) \<le> (2::int) ^ 53" by (simp only: rne_of_int)
  then have "(of_int (rne (x / ulp x)) :: rat) \<le> of_int (2 ^ 53)" by (simp only: of_int_le_iff)
  then have "of_int (rne (x / ulp x)) * ulp x \<le> 2 ^ 53 * ulp x"
    using ulp_pos [of x] by (intro mult_right_mono) simp_all
  then show "fl x \<le> 2 powi (ilog2 x + 1)" by (simp only: v fl_pos_eq [OF assms])
qed

lemma fl_mono_pos:
  assumes "0 < x" "x \<le> y"
  shows "fl x \<le> fl y"
proof (cases "ilog2 x = ilog2 y")
  case True
  have y: "0 < y" using assms by simp
  have u: "ulp x = ulp y" by (simp add: ulp_def True)
  have "x / ulp y \<le> y / ulp y" using assms(2) ulp_pos [of y] by (simp add: divide_right_mono)
  then have "rne (x / ulp y) \<le> rne (y / ulp y)" by (rule rne_mono)
  then have "(of_int (rne (x / ulp y)) :: rat) \<le> of_int (rne (y / ulp y))" by (simp only: of_int_le_iff)
  then have "of_int (rne (x / ulp y)) * ulp y \<le> of_int (rne (y / ulp y)) * ulp y"
    using ulp_pos [of y] by (intro mult_right_mono) simp_all
  then show ?thesis by (simp add: fl_pos_eq assms(1) y u)
next
  case False
  have y: "0 < y" using assms by simp
  from False ilog2_mono [OF assms] have "ilog2 x + 1 \<le> ilog2 y" by simp
  then have "(2::rat) powi (ilog2 x + 1) \<le> 2 powi ilog2 y" by (rule power_int_increasing) simp
  with fl_binade(2) [OF assms(1)] fl_binade(1) [OF y] show ?thesis by simp
qed

lemma fl_zero [simp]: "fl 0 = 0"
  by (simp add: fl_def)

lemma fl_nonneg: "0 \<le> x \<Longrightarrow> 0 \<le> fl x"
proof (cases "x = 0")
  case True
  then show ?thesis by simp
next
  case False
  assume "0 \<le> x"
  with False have x: "0 < x" by simp
  have "(0::rat) < 2 powi ilog2 x" by simp
  with fl_binade(1) [OF x] show ?thesis by linarith
qed

lemma fl_mono: "0 \<le> x \<Longrightarrow> x \<le> y \<Longrightarrow> fl x \<le> fl y"
proof (cases "x = 0")
  case True
  assume "0 \<le> x" "x \<le> y"
  with True fl_nonneg [of y] show ?thesis by simp
next
  case False
  assume "0 \<le> x" "x \<le> y"
  with False show ?thesis by (intro fl_mono_pos) simp_all
qed

lemma fl_abs_error: "0 \<le> x \<Longrightarrow> \<bar>fl x - x\<bar> \<le> x / 2 ^ 53"
  using fl_rel_error [of x] by (cases "x = 0") simp_all

lemma fl_near_int:
  assumes x: "0 < x" and e: "ilog2 x \<le> 52" and d: "\<bar>x - of_int k\<bar> * 2 ^ 53 < 2 powi ilog2 x"
  shows "fl x = of_int k"
proof -
  define s where "s = nat (52 - ilog2 x)"
  have u: "ulp x * 2 ^ s = 1"
  proof -
    have "ulp x * 2 powi (int s) = 2 powi (ilog2 x - 52 + int s)"
      unfolding ulp_def by (simp add: power_int_add)
    also have "ilog2 x - 52 + int s = 0" using e by (simp add: s_def)
    finally show ?thesis by (simp add: power_int_of_nat)
  qed
  have up: "0 < ulp x" by (rule ulp_pos)
  have inv: "1 / ulp x = 2 ^ s" using u up by (simp add: field_simps)
  have "of_int k / ulp x = of_int k * (1 / ulp x)" by simp
  also have "\<dots> = of_int (k * 2 ^ s)" unfolding inv by simp
  finally have J: "of_int k / ulp x = of_int (k * 2 ^ s)" .
  have h: "2 powi ilog2 x = ulp x * 2 ^ 52"
    by (simp add: ulp_def power_int_diff)
  have "\<bar>x - of_int k\<bar> * 2 < ulp x" using d unfolding h by simp
  then have "\<bar>x - of_int k\<bar> / ulp x < 1 / 2" using up by (simp add: field_simps)
  moreover have "\<bar>x / ulp x - of_int k / ulp x\<bar> = \<bar>x - of_int k\<bar> / ulp x"
  proof -
    have "x / ulp x - of_int k / ulp x = (x - of_int k) / ulp x" by (simp add: diff_divide_distrib)
    then show ?thesis using up by (simp only: abs_divide abs_of_pos)
  qed
  ultimately have "\<bar>x / ulp x - of_int (k * 2 ^ s)\<bar> < 1 / 2" unfolding J by simp
  then have "rne (x / ulp x) = k * 2 ^ s" by (rule rne_near)
  then have "fl x = of_int (k * 2 ^ s) * ulp x" by (simp add: fl_pos_eq x)
  also have "\<dots> = of_int k * (ulp x * 2 ^ s)" by simp
  finally show ?thesis by (simp only: u mult_1_right)
qed

lemma fl_consts: "fl 1 = 1" "fl 50 = 50" "fl 100 = 100"
  by code_simp+

section \<open>The index of the 95th percentile\<close>

text \<open>
  The literal \<^verbatim>\<open>0.95\<close> is the double \<open>8556839292003942 / 2\<^sup>5\<^sup>3\<close>, a little below 95/100.
  For an array length \<open>n < 2\<^sup>3\<^sup>2\<close> the rounded product \<^verbatim>\<open>0.95 * n\<close> still has the floor of
  the exact \<open>19 n / 20\<close>: when 20 divides \<open>n\<close> the product rounds up to the integer
  \<open>19 n / 20\<close> itself, and otherwise it stays at least \<open>1/20 - 2\<^sup>-\<^sup>2\<^sup>0\<close> above the integer
  below.
\<close>

lemma fl_095: "fl (19 / 20) = 4278419646001971 / 4503599627370496"
  by code_simp

lemma p95_product_floor:
  assumes "0 < n" "n < 2 ^ 32"
  shows "\<lfloor>fl (fl (95 / 100) * of_nat n)\<rfloor> = int (19 * n div 20)"
proof -
  define N :: rat where "N = of_nat n"
  define v :: rat where "v = 8556839292003942 / 9007199254740992 * N"
  define k where "k = 19 * n div 20"
  define m where "m = 19 * n mod 20"
  define K :: rat where "K = of_nat k"
  define R :: rat where "R = of_nat m"
  have "19 * n = 20 * k + m" by (simp add: k_def m_def)
  then have "(of_nat (19 * n) :: rat) = of_nat (20 * k + m)" by (simp only:)
  then have nk: "19 * N = 20 * K + R" by (simp add: N_def K_def R_def)
  have "(of_nat n :: rat) < of_nat (2 ^ 32)" using assms(2) by (simp only: of_nat_less_iff)
  then have Nlt: "N < 4294967296" by (simp add: N_def)
  have "(of_nat 1 :: rat) \<le> of_nat n" using assms(1) by simp
  then have N1: "1 \<le> N" by (simp add: N_def)
  have v_eq: "v = 19 * N / 20 - N / 22517998136852480" by (simp add: v_def)
  have vpos: "0 < v" using N1 by (simp add: v_def)
  have vlt: "v < 4294967296" using Nlt N1 by (simp add: v_def)
  have flv: "fl (fl (95 / 100) * of_nat n) = fl v" by (simp add: fl_095 v_def N_def)
  have err: "\<bar>fl v - v\<bar> \<le> v / 9007199254740992" using fl_rel_error [OF vpos] by simp
  have "m < 20" by (simp add: m_def)
  then have "(of_nat m :: rat) < of_nat 20" by (simp only: of_nat_less_iff)
  then have Rlt: "R \<le> 19"
  proof -
    from \<open>m < 20\<close> have "m \<le> 19" by simp
    then have "(of_nat m :: rat) \<le> of_nat 19" by (simp only: of_nat_le_iff)
    then show ?thesis by (simp add: R_def)
  qed
  have "\<lfloor>fl v\<rfloor> = int k"
  proof (cases "m = 0")
    case True
    then have R0: "R = 0" by (simp add: R_def)
    have e: "ilog2 v < 32"
    proof -
      have "(2::rat) powi ilog2 v < 2 powi 32" using ilog2_bounds(1) [OF vpos] vlt by simp
      then show ?thesis by (rule pow2_less_D)
    qed
    have "v < 2 powi (ilog2 v + 1)" by (rule ilog2_bounds(2) [OF vpos])
    also have "\<dots> = 2 * 2 powi ilog2 v" by (simp add: power_int_add)
    finally have half: "v / 2 < 2 powi ilog2 v" by simp
    have "v - K = - (N / 22517998136852480)" using nk R0 v_eq by simp
    then have d: "\<bar>v - K\<bar> = N / 22517998136852480" using N1 by simp
    have "\<bar>v - K\<bar> * 2 ^ 53 < v / 2" unfolding d using N1 v_eq by simp
    with half have "\<bar>v - K\<bar> * 2 ^ 53 < 2 powi ilog2 v" by simp
    then have "\<bar>v - of_int (int k)\<bar> * 2 ^ 53 < 2 powi ilog2 v" by (simp add: K_def)
    with vpos e have "fl v = of_int (int k)" by (intro fl_near_int) simp_all
    then show ?thesis by simp
  next
    case False
    then have "1 \<le> m" by simp
    then have "(of_nat 1 :: rat) \<le> of_nat m" by (simp only: of_nat_le_iff)
    then have R1: "1 \<le> R" by (simp add: R_def)
    from err have e1: "v - fl v \<le> v / 9007199254740992" and e2: "fl v - v \<le> v / 9007199254740992"
      by linarith+
    have "K \<le> fl v" using e1 nk R1 Nlt N1 v_eq by linarith
    then have lo: "of_int (int k) \<le> fl v" by (simp add: K_def)
    have "fl v < K + 1" using e2 nk Rlt Nlt N1 v_eq by linarith
    then have hi: "fl v < of_int (int k) + 1" by (simp add: K_def)
    from lo hi show ?thesis by (rule floor_unique)
  qed
  then show ?thesis by (simp only: flv k_def)
qed

lemma p95_index_exact:
  assumes "n < 2 ^ 32"
  shows "p95_index n = Num (of_nat (19 * n div 20))"
proof (cases "n = 0")
  case True
  then show ?thesis by (simp add: p95_index_def of_count_def fl_def)
next
  case False
  then have "0 < n" by simp
  from p95_product_floor [OF this assms] show ?thesis 
    by (simp add: p95_index_def of_count_def)
qed

lemma at_index_nat: "k < length xs \<Longrightarrow> at_index xs (Num (of_nat k)) = Some (xs ! k)"
  by (simp add: at_index_def)


lemma p95_value:
  assumes "ts \<noteq> []" "length ts < 2 ^ 32"
  shows "p95 ts = Some (sort ts ! (19 * length ts div 20))"
proof -
  have "0 < length ts" using assms(1) by simp
  then have "19 * length ts div 20 < length ts" by arith
  then have "19 * length ts div 20 < length (sort ts)" by simp
  then show ?thesis using assms(2) by (simp add: p95_def p95_index_exact at_index_nat)
qed

section \<open>The rows of the summary\<close>

text \<open>
  The first loop of \<^verbatim>\<open>showSummary\<close> keeps one entry for each name seen so far, holding the
  durations of that name in the order of the results (\<open>groups_of\<close>); it throws exactly for a
  name that \<^verbatim>\<open>Object.prototype\<close> has. The second loop makes one row of each entry, and throws
  exactly for an entry with more durations than one call takes arguments.
\<close>

lemma group_of_snoc:
  "group_of k (rs @ [r])
     = (if result.name r = k then group_of k rs @ [duration r] else group_of k rs)"
  by (simp add: group_of_def)

lemma group_of_empty: "group_of k rs = [] \<longleftrightarrow> k \<notin> result.name ` set rs"
  by (auto simp: group_of_def filter_empty_conv)

lemma groups_of_Nil: "groups_of [] []"
  by (simp add: groups_of_def)



lemma add_result_groups:
  assumes "groups_of rs s" and "add_result s r = Inr s'"
  shows "groups_of (rs @ [r]) s'"
proof (cases "result.name r \<in> set (map fst s)")
  case True
  with assms(2) have s': "s' = map (\<lambda>(k, d). if k = result.name r
           then (k, d\<lparr>times := times d @ [duration r],
                      errors := errors d + (if success r then 0 else 1)\<rparr>)
           else (k, d)) s"
    by (simp add: add_result_def Let_def split: if_splits)
  have keys: "map fst s' = map fst s" unfolding s' by (induction s) auto
  then have "fst ` set s' = fst ` set s" by (metis set_map)
  moreover have "\<forall>(k, d) \<in> set s'. times d = group_of k (rs @ [r])"
    using assms(1) unfolding s' groups_of_def
    by (auto simp: group_of_snoc split: if_splits)
  ultimately show ?thesis using assms(1) True keys by (auto simp: groups_of_def)
next
  case False
  with assms(2) have s': "s' = s @ [(result.name r,
      \<lparr>times = [duration r], errors = (if success r then 0 else 1)\<rparr>)]"
    by (simp add: add_result_def Let_def split: if_splits)
  from False assms(1) have "result.name r \<notin> result.name ` set rs" by (simp add: groups_of_def)
  then have new: "group_of (result.name r) rs = []" by (simp add: group_of_empty)
  have d: "distinct (map fst s')" using assms(1) False by (simp add: s' groups_of_def)
  have k: "fst ` set s' = result.name ` set (rs @ [r])"
    using assms(1) by (auto simp: s' groups_of_def)
  have "times d = group_of k (rs @ [r])" if "(k, d) \<in> set s'" for k d
  proof (cases "(k, d) \<in> set s")
    case True
    then have "k \<in> set (map fst s)" by force
    with False have "result.name r \<noteq> k" by auto
    moreover from True assms(1) have "times d = group_of k rs" by (auto simp: groups_of_def)
    ultimately show ?thesis by (simp add: group_of_snoc)
  next
    case False
    with that have "k = result.name r" "times d = [duration r]" by (auto simp: s')
    with new show ?thesis by (simp add: group_of_snoc)
  qed
  with d k show ?thesis unfolding groups_of_def by blast
qed

lemma group_results_groups:
  "groups_of rs0 s \<Longrightarrow> group_results s rs = Inr s' \<Longrightarrow> groups_of (rs0 @ rs) s'"
proof (induction rs arbitrary: s rs0)
  case Nil
  then show ?case by simp
next
  case (Cons r rs)
  from Cons.prems(2) obtain s1 where a: "add_result s r = Inr s1"
    and g: "group_results s1 rs = Inr s'" by (auto split: sum.splits)
  from add_result_groups [OF Cons.prems(1) a] have "groups_of (rs0 @ [r]) s1" .
  from Cons.IH [OF this g] show ?case by simp
qed



lemma set_Object_entries: "set (Object_entries obj) = set obj"
  by (auto simp: Object_entries_def)

lemma distinct_Object_entries:
  assumes "distinct (map fst obj)"
  shows "distinct (map fst (Object_entries obj))"
proof -
  from assms have d: "distinct obj" and i: "inj_on fst (set obj)" by (simp_all add: distinct_map)
  have "distinct (Object_entries obj)" using d by (auto simp: Object_entries_def)
  with i show ?thesis by (simp add: distinct_map set_Object_entries)
qed

lemma make_row_Inr: "(\<exists>row. make_row m e = Inr row) \<longleftrightarrow> length (times (snd e)) \<le> m"
  by (cases e) (auto simp: make_row_def Math_max_def Math_min_def Let_def)


lemma make_row_fields:
  assumes "make_row m e = Inr row"
  shows "row_name row = fst e" and "row_count row = length (times (snd e))"
    and "row_p95 row = p95 (times (snd e))"
  using assms
  by (cases e; auto simp: make_row_def Math_max_def Math_min_def Let_def split: if_splits)+



lemma make_rows_rows:
  "make_rows m es = Inr rows \<Longrightarrow> list_all2 (\<lambda>e row. make_row m e = Inr row) es rows"
proof (induction es arbitrary: rows)
  case Nil
  then show ?case by simp
next
  case (Cons e es)
  then show ?case by (auto split: sum.splits)
qed

lemma make_rows_names: "make_rows m es = Inr rows \<Longrightarrow> map row_name rows = map fst es"
proof (induction es arbitrary: rows)
  case Nil
  then show ?case by simp
next
  case (Cons e es)
  then show ?case using make_row_fields(1) [of m e] by (auto split: sum.splits)
qed

lemma make_rows_member:
  assumes "make_rows m es = Inr rows" and "row \<in> set rows"
  shows "\<exists>e \<in> set es. make_row m e = Inr row"
proof -
  from assms(2) obtain i where i: "i < length rows" "rows ! i = row"
    by (auto simp: in_set_conv_nth)
  from make_rows_rows [OF assms(1)] have l: "list_all2 (\<lambda>e row. make_row m e = Inr row) es rows" .
  then have "length es = length rows" by (rule list_all2_lengthD)
  with l i have "make_row m (es ! i) = Inr row" "es ! i \<in> set es"
    by (auto simp: list_all2_conv_all_nth)
  then show ?thesis by blast
qed

lemma showSummary_Inr:
  assumes "showSummary m rs = Inr rep"
  obtains summary where "group_results [] rs = Inr summary"
    and "make_rows m (Object_entries summary) = Inr (table rep)"
  using assms by (auto simp: showSummary_def Let_def split: sum.splits)

lemma showSummary_rows:
  assumes "showSummary m rs = Inr rep"
  shows "distinct (map row_name (table rep))"
    and "row_name ` set (table rep) = result.name ` set rs"
    and "row \<in> set (table rep) \<Longrightarrow>
           row_count row = length (group_of (row_name row) rs)
           \<and> row_p95 row = p95 (group_of (row_name row) rs)
           \<and> length (group_of (row_name row) rs) \<le> m
           \<and> group_of (row_name row) rs \<noteq> []"
proof -
  from assms obtain summary where g: "group_results [] rs = Inr summary"
    and t: "make_rows m (Object_entries summary) = Inr (table rep)"
    by (rule showSummary_Inr)
  from group_results_groups [OF groups_of_Nil g] have inv: "groups_of rs summary" by simp
  note names = make_rows_names [OF t]
  from inv have "distinct (map fst summary)" by (simp add: groups_of_def)
  then show "distinct (map row_name (table rep))"
    unfolding names by (rule distinct_Object_entries)
  have "row_name ` set (table rep) = fst ` set (Object_entries summary)"
    using names by (metis set_map)
  then show cover: "row_name ` set (table rep) = result.name ` set rs"
    using inv by (simp add: set_Object_entries groups_of_def)
  show "row_count row = length (group_of (row_name row) rs)
           \<and> row_p95 row = p95 (group_of (row_name row) rs)
           \<and> length (group_of (row_name row) rs) \<le> m
           \<and> group_of (row_name row) rs \<noteq> []" if row: "row \<in> set (table rep)"
  proof -
    from make_rows_member [OF t row] obtain e where e: "e \<in> set summary"
      and r: "make_row m e = Inr row" by (auto simp: set_Object_entries)
    from e inv have ts: "times (snd e) = group_of (fst e) rs" by (auto simp: groups_of_def)
    from r make_row_Inr [of m e] have "length (times (snd e)) \<le> m" by auto
    moreover from row cover have "row_name row \<in> result.name ` set rs" by blast
    then have "group_of (row_name row) rs \<noteq> []" by (simp add: group_of_empty)
    ultimately show ?thesis using make_row_fields [OF r] ts by simp
  qed
qed








text \<open>
  Claim C8. For a group of \<open>N \<ge> 1\<close> durations the index \<^verbatim>\<open>Math.floor(0.95 * N)\<close> that the code
  computes is a natural number below \<open>N\<close>: without any clamping the read of the sorted
  durations is inside the array and yields one of the durations. So does the p95 of every row
  of \<open>N\<close> durations in a table that \<^verbatim>\<open>showSummary\<close> returns.
\<close>

theorem p95_index_in_bounds:
  assumes "1 \<le> n" and "n < 2 ^ 32"
  shows "\<exists>k. p95_index n = Num (of_nat k) \<and> k < n
           \<and> (\<forall>ts. length ts = n \<longrightarrow> p95 ts = Some (sort ts ! k) \<and> sort ts ! k \<in> set ts)
           \<and> (\<forall>maxargs rs rep row.
                 showSummary maxargs rs = Inr rep \<longrightarrow> row \<in> set (table rep) \<longrightarrow>
                 row_count row = n \<longrightarrow>
                   row_p95 row = Some (sort (group_of (row_name row) rs) ! k)
                   \<and> sort (group_of (row_name row) rs) ! k \<in> set (group_of (row_name row) rs))"
proof -
  let ?k = "19 * n div 20"
  have k: "?k < n" using assms(1) by arith
  have ts: "p95 ts = Some (sort ts ! ?k) \<and> sort ts ! ?k \<in> set ts"
    if "length ts = n" for ts :: "int list"
  proof -
    have ne: "ts \<noteq> []" using that assms(1) by auto
    have "?k < length (sort ts)" using k that by simp
    then have "sort ts ! ?k \<in> set (sort ts)" by (rule nth_mem)
    then show ?thesis using p95_value [OF ne] assms(2) that by simp
  qed
  have "row_p95 row = Some (sort (group_of (row_name row) rs) ! ?k)
          \<and> sort (group_of (row_name row) rs) ! ?k \<in> set (group_of (row_name row) rs)"
    if "showSummary maxargs rs = Inr rep" and "row \<in> set (table rep)" and "row_count row = n"
    for maxargs rs rep row
  proof -
    from showSummary_rows(3) [OF that(1,2)] that(3)
    have "length (group_of (row_name row) rs) = n"
      and "row_p95 row = p95 (group_of (row_name row) rs)" by simp_all
    with ts [of "group_of (row_name row) rs"] show ?thesis by simp
  qed
  with ts k p95_index_exact [OF assms(2)] show ?thesis by blast
qed

theorem p95_index_in_bounds_witness:
  "(1::nat) \<le> 3 \<and> (3::nat) < 2 ^ 32 \<and> p95_index 3 = Num 2 \<and> p95 [30, 10, 20] = Some 30"
proof -
  have "(1::nat) \<le> 3" and "(3::nat) < 2 ^ 32" by simp_all
  from p95_index_in_bounds [OF this] obtain k where
    k: "p95_index 3 = Num (of_nat k)" "k < 3"
      "\<forall>ts. length ts = 3 \<longrightarrow> p95 ts = Some (sort ts ! k) \<and> sort ts ! k \<in> set ts"
    by blast
  have "p95_index 3 = Num 2" by (simp add: p95_index_exact)
  with k(1) have "k = 2" by simp
  with k(3) have "p95 [30, 10, 20] = Some (sort [30, 10, 20] ! 2)" by simp
  then show ?thesis using \<open>p95_index 3 = Num 2\<close> by simp
qed

section \<open>Loading the configuration\<close>

text \<open>
  Claim C10. \<^verbatim>\<open>loadConfig\<close> lays the parsed file over the defaults field by field and
  checks no range: a value present for \<open>users\<close>, \<open>repetitions\<close> or
  \<open>delayMsBetweenUsers\<close>, zero and negative numbers included, is the value of the run
  configuration.
\<close>

lemma loadConfig_Parsed:
  "loadConfig (Parsed uc) =
     \<lparr>collectionPath = (case uc_collectionPath uc of Some v \<Rightarrow> v | None \<Rightarrow> ''./collection.json''),
      users = (case uc_users uc of Some v \<Rightarrow> v | None \<Rightarrow> 10),
      repetitions = (case uc_repetitions uc of Some v \<Rightarrow> v | None \<Rightarrow> 1),
      delayMsBetweenUsers = (case uc_delayMsBetweenUsers uc of Some v \<Rightarrow> v | None \<Rightarrow> 10)\<rparr>"
  by (simp add: spread_def DEFAULT_CONFIG_def split: option.split)

theorem loadConfig_no_validation:
  "(\<forall>v. uc_users uc = Some v \<longrightarrow> users (loadConfig (Parsed uc)) = v)
   \<and> (\<forall>v. uc_repetitions uc = Some v \<longrightarrow> repetitions (loadConfig (Parsed uc)) = v)
   \<and> (\<forall>v. uc_delayMsBetweenUsers uc = Some v \<longrightarrow>
          delayMsBetweenUsers (loadConfig (Parsed uc)) = v)
   \<and> (uc_users uc = None \<longrightarrow> users (loadConfig (Parsed uc)) = 10)
   \<and> (uc_repetitions uc = None \<longrightarrow> repetitions (loadConfig (Parsed uc)) = 1)
   \<and> (uc_delayMsBetweenUsers uc = None \<longrightarrow> delayMsBetweenUsers (loadConfig (Parsed uc)) = 10)"
proof -
  have u: "users (loadConfig (Parsed uc)) = (case uc_users uc of Some v \<Rightarrow> v | None \<Rightarrow> 10)"
    and r: "repetitions (loadConfig (Parsed uc))
              = (case uc_repetitions uc of Some v \<Rightarrow> v | None \<Rightarrow> 1)"
    and d: "delayMsBetweenUsers (loadConfig (Parsed uc))
              = (case uc_delayMsBetweenUsers uc of Some v \<Rightarrow> v | None \<Rightarrow> 10)"
    unfolding loadConfig_Parsed by simp_all
  show ?thesis unfolding u r d by simp
qed

theorem loadConfig_no_validation_witness:
  "uc_users out_of_range = Some 0 \<and> uc_repetitions out_of_range = Some (- 3)
   \<and> uc_delayMsBetweenUsers out_of_range = None
   \<and> users (loadConfig (Parsed out_of_range)) = 0
   \<and> repetitions (loadConfig (Parsed out_of_range)) = - 3
   \<and> delayMsBetweenUsers (loadConfig (Parsed out_of_range)) = 10"
  using loadConfig_no_validation [of out_of_range] by (simp add: out_of_range_def)

section \<open>A single request\<close>

text \<open>
  Claim C2. For every request that is executed (its template resolves to an \<^verbatim>\<open>axios\<close>
  call), whatever the network does, \<^verbatim>\<open>runRequest\<close> returns a result and does not throw;
  \<open>success\<close> holds exactly when the status is in \<open>[200, 400)\<close>; a received response gives
  its own status; a transport failure gives status 0 and \<open>success = False\<close>.
\<close>

theorem runRequest_classifies:
  assumes "resolve_request it = Inr cfg"
  shows "\<exists>r. runRequest net it = Inr r
           \<and> result.name r = item.name it
           \<and> (success r \<longleftrightarrow> 200 \<le> status r \<and> status r < 400)
           \<and> (\<forall>st d. net cfg = Response st d \<longrightarrow> status r = st \<and> duration r = d)
           \<and> (\<forall>d. net cfg = Failure d \<longrightarrow> status r = 0 \<and> \<not> success r \<and> duration r = d)"
  using assms by (cases "net cfg") (simp_all add: runRequest_def)

lemma resolve_ping: "resolve_request ping = Inr ping_cfg"
  by (simp add: resolve_request_def ping_def ping_cfg_def headers_of_def)

theorem runRequest_classifies_witness:
  "resolve_request ping = Inr ping_cfg
   \<and> runRequest (\<lambda>_. Failure 10000) ping
       = Inr \<lparr>name = ''ping'', status = 0, duration = 10000, success = False\<rparr>
   \<and> runRequest (\<lambda>_. Response 404 12) ping
       = Inr \<lparr>name = ''ping'', status = 404, duration = 12, success = False\<rparr>"
proof -
  from runRequest_classifies [OF resolve_ping, of "\<lambda>_. Failure 10000"]
  have a: "runRequest (\<lambda>_. Failure 10000) ping
       = Inr \<lparr>name = ''ping'', status = 0, duration = 10000, success = False\<rparr>"
    by (auto simp: ping_def)
  from runRequest_classifies [OF resolve_ping, of "\<lambda>_. Response 404 12"]
  have b: "runRequest (\<lambda>_. Response 404 12) ping
       = Inr \<lparr>name = ''ping'', status = 404, duration = 12, success = False\<rparr>"
    by (auto simp: ping_def)
  from resolve_ping a b show ?thesis by simp
qed

lemma runRequest_name: "runRequest net it = Inr r \<Longrightarrow> result.name r = item.name it"
  by (auto simp: runRequest_def split: sum.splits outcome.splits)

lemma runRequest_no_request: "item.request it = None \<Longrightarrow> runRequest net it = Inl TypeError"
  by (simp add: runRequest_def resolve_request_def)

lemma runRequest_has_request: "runRequest net it = Inr r \<Longrightarrow> item.request it \<noteq> None"
  by (auto simp: runRequest_def resolve_request_def split: option.splits)

section \<open>Headers\<close>

lemma headers_of_snoc:
  "headers_of (hs @ [h]) = (headers_of hs)(property_key (key h) \<mapsto> hvalue h)"
  by (simp add: headers_of_def)

text \<open>
  Claim C5, as the code has it. The resolver folds the ordered list of header pairs into a
  mapping in which, for each key, the last entry with that key gives the value. An entry
  without a key is not skipped: its computed property key is the string \<^verbatim>\<open>"undefined"\<close>, and
  it is stored under that key like any other entry.
\<close>

theorem headers_last_write_wins:
  "headers_of hs k =
     (let same = filter (\<lambda>h. property_key (key h) = k) hs
      in if same = [] then None else Some (hvalue (last same)))
   \<and> property_key None = ''undefined''
   \<and> headers_of (hs @ [\<lparr>key = None, hvalue = v\<rparr>]) ''undefined'' = Some v"
proof -
  have "headers_of hs k =
     (let same = filter (\<lambda>h. property_key (key h) = k) hs
      in if same = [] then None else Some (hvalue (last same)))"
  proof (induction hs rule: rev_induct)
    case Nil
    show ?case by (simp add: headers_of_def)
  next
    case (snoc h hs)
    then show ?case by (simp add: headers_of_snoc Let_def)
  qed
  then show ?thesis by (simp add: headers_of_snoc property_key_def)
qed

text \<open>
  Claim C5 as stated fails: a single pair without a key does contribute to the mapping.
\<close>

theorem unkeyed_header_counterexample:
  "headers_of [\<lparr>key = None, hvalue = Some ''v''\<rparr>] ''undefined'' = Some (Some ''v'')
   \<and> headers_of [\<lparr>key = None, hvalue = Some ''v''\<rparr>] \<noteq> Map.empty"
proof -
  have a: "headers_of [\<lparr>key = None, hvalue = Some ''v''\<rparr>] ''undefined'' = Some (Some ''v'')"
    by (simp add: headers_of_def property_key_def)
  then have "headers_of [\<lparr>key = None, hvalue = Some ''v''\<rparr>] \<noteq> Map.empty"
    by (metis option.distinct(1))
  with a show ?thesis by simp
qed

section \<open>The progress percentage\<close>

lemma progress_percentage_eq:
  assumes "0 < t"
  shows "progress_percentage c t
           = Num (of_int \<lfloor>fl (fl (of_nat c / of_int t) * 100) + 1 / 2\<rfloor>)"
  using assms by (simp add: progress_percentage_def of_count_def)

lemma pct_mono:
  assumes "0 < t" "c \<le> c'"
  shows "\<lfloor>fl (fl (of_nat c / of_int t) * 100) + 1 / 2\<rfloor>
       \<le> \<lfloor>fl (fl (of_nat c' / of_int t) * 100) + 1 / 2\<rfloor>"
proof -
  have t: "(0::rat) < of_int t" using assms(1) by simp
  have "(of_nat c :: rat) \<le> of_nat c'" using assms(2) by simp
  then have "(of_nat c :: rat) / of_int t \<le> of_nat c' / of_int t"
    using t by (simp add: divide_right_mono)
  moreover have "(0::rat) \<le> of_nat c / of_int t" using t by simp
  ultimately have a: "fl (of_nat c / of_int t) \<le> fl (of_nat c' / of_int t)" 
    and b: "0 \<le> fl (of_nat c / of_int t)" by (simp_all add: fl_mono fl_nonneg)
  from a b have "fl (fl (of_nat c / of_int t) * 100) \<le> fl (fl (of_nat c' / of_int t) * 100)"
    by (intro fl_mono) simp_all
  then show ?thesis by (intro floor_mono) simp
qed

lemma pct_near:
  assumes "0 < t" "int c \<le> t"
  shows "\<bar>of_int \<lfloor>fl (fl (of_nat c / of_int t) * 100) + 1 / 2\<rfloor> - 100 * of_nat c / of_int t\<bar>
           \<le> (1 / 2 + 1 / 2 ^ 44 :: rat)"
proof -
  define q :: rat where "q = of_nat c / of_int t"
  define a where "a = fl q"
  define y where "y = fl (a * 100)"
  have t: "(0::rat) < of_int t" using assms(1) by simp
  have "(of_int (int c) :: rat) \<le> of_int t" using assms(2) by (simp only: of_int_le_iff)
  then have q1: "q \<le> 1" using t by (simp add: q_def)
  have q0: "0 \<le> q" using t by (simp add: q_def)
  have a0: "0 \<le> a" using q0 by (simp add: a_def fl_nonneg)
  have ea: "\<bar>a - q\<bar> \<le> q / 9007199254740992" using fl_abs_error [OF q0] by (simp add: a_def)
  have "0 \<le> a * 100" using a0 by simp
  from fl_abs_error [OF this] have ey: "\<bar>y - a * 100\<bar> \<le> a * 100 / 9007199254740992" 
    by (simp add: y_def)
  have d: "\<bar>y - 100 * q\<bar> \<le> 1 / 17592186044416" using ea ey q0 q1 by linarith
  have f: "of_int \<lfloor>y + 1 / 2\<rfloor> \<le> y + 1 / 2" "y + 1 / 2 < of_int \<lfloor>y + 1 / 2\<rfloor> + 1"
    by linarith+
  have "\<bar>of_int \<lfloor>y + 1 / 2\<rfloor> - 100 * q\<bar> \<le> 1 / 2 + 1 / 17592186044416"
    using d f by linarith
  then show ?thesis by (simp add: y_def a_def q_def)
qed

lemma pct_range:
  assumes "0 < t" "int c \<le> t"
  shows "0 \<le> \<lfloor>fl (fl (of_nat c / of_int t) * 100) + 1 / 2\<rfloor>"
    and "\<lfloor>fl (fl (of_nat c / of_int t) * 100) + 1 / 2\<rfloor> \<le> 100"
proof -
  define q :: rat where "q = of_nat c / of_int t"
  have t: "(0::rat) < of_int t" using assms(1) by simp
  have "(of_int (int c) :: rat) \<le> of_int t" using assms(2) by (simp only: of_int_le_iff)
  then have q1: "q \<le> 1" using t by (simp add: q_def)
  have q0: "0 \<le> q" using t by (simp add: q_def)
  have a0: "0 \<le> fl q" using q0 by (rule fl_nonneg)
  have "fl q \<le> fl 1" using q0 q1 by (rule fl_mono)
  then have a1: "fl q \<le> 1" by (simp add: fl_consts)
  have y0: "0 \<le> fl (fl q * 100)" using a0 by (intro fl_nonneg) simp
  have "fl (fl q * 100) \<le> fl 100" using a0 a1 by (intro fl_mono) simp_all
  then have y1: "fl (fl q * 100) \<le> 100" by (simp add: fl_consts)
  from y0 show "0 \<le> \<lfloor>fl (fl (of_nat c / of_int t) * 100) + 1 / 2\<rfloor>" 
    unfolding q_def [symmetric] by simp
  have "\<lfloor>fl (fl q * 100) + 1 / 2\<rfloor> \<le> \<lfloor>(100 :: rat) + 1 / 2\<rfloor>" using y1 by (intro floor_mono) simp
  also have "\<dots> = 100" by (rule floor_unique) simp_all
  finally show "\<lfloor>fl (fl (of_nat c / of_int t) * 100) + 1 / 2\<rfloor> \<le> 100"
    unfolding q_def [symmetric] .
qed

lemma floor_100_half: "\<lfloor>(100 :: rat) + 1 / 2\<rfloor> = 100"
  by (rule floor_unique) simp_all

lemma progress_percentage_full:
  assumes "0 < t" "int c = t"
  shows "progress_percentage c t = Num 100"
proof -
  have "(of_nat c :: rat) = of_int t" using assms(2) by (metis of_int_of_nat_eq)
  moreover have "(of_int t :: rat) \<noteq> 0" using assms(1) by simp
  ultimately have "(of_nat c :: rat) / of_int t = 1" by simp
  then show ?thesis by (simp only: progress_percentage_eq [OF assms(1)] fl_consts mult_1 floor_100_half) simp
qed

lemma updateProgress_ok:
  assumes "0 < t" "int c \<le> t"
  shows "\<exists>line. updateProgress c t = Inr line
           \<and> percentage line = progress_percentage c t
           \<and> shown_completedRequests line = c \<and> shown_totalRequests line = t"
proof -
  define p where "p = \<lfloor>fl (fl (of_nat c / of_int t) * 100) + 1 / 2\<rfloor>"
  have pp: "progress_percentage c t = Num (of_int p)"
    by (simp add: progress_percentage_eq [OF assms(1)] p_def)
  have p0: "0 \<le> p" and p100: "p \<le> 100" using pct_range [OF assms] by (simp_all add: p_def)
  define h where "h = \<lfloor>fl (of_int p / 2)\<rfloor>"
  have half: "Math_floor (js_div (Num (of_int p)) (Num 2)) = Num (of_int h)"
    by (simp add: h_def)
  have x0: "(0::rat) \<le> of_int p / 2" using p0 by simp
  have "(of_int p :: rat) \<le> of_int 100" using p100 by (simp only: of_int_le_iff)
  then have x1: "(of_int p :: rat) / 2 \<le> 50" by simp
  have "0 \<le> fl (of_int p / 2)" using x0 by (rule fl_nonneg)
  then have h0: "0 \<le> h" by (simp add: h_def)
  have "fl (of_int p / 2) \<le> fl 50" using x0 x1 by (rule fl_mono)
  then have "fl (of_int p / 2) \<le> 50" by (simp add: fl_consts)
  then have "h \<le> \<lfloor>50 :: rat\<rfloor>" unfolding h_def by (rule floor_mono)
  then have h50: "h \<le> 50" by simp
  have r1: "repeat_count (Num (of_int h)) = Inr (nat h)" using h0 by (simp add: repeat_count_def)
  have "(of_int h :: rat) \<le> of_int 50" using h50 by (simp only: of_int_le_iff)
  then have "(0::rat) \<le> 50 - of_int h" by simp
  then have "0 \<le> fl (50 - of_int h)" by (rule fl_nonneg)
  then have r2: "\<exists>b. repeat_count (js_sub (Num 50) (Num (of_int h))) = Inr b"
    by (simp add: repeat_count_def js_sub_def)
  then obtain b where "repeat_count (js_sub (Num 50) (Num (of_int h))) = Inr b" ..
  with r1 half pp show ?thesis by (simp add: updateProgress_def Let_def)
qed

section \<open>Invariants of a run\<close>

text \<open>
  Each step of a run is one of five: nothing happens (the user is not running), the user
  resolves, \<^verbatim>\<open>runRequest\<close> throws, \<^verbatim>\<open>updateProgress\<close> throws after the push, or the result
  is pushed and the progress line written.
\<close>

lemma step_cases [consumes 0, case_names idle resolve crash push_crash push]:
  obtains
    "step t s (i, net) = s" "\<not> (i < length (tasks s) \<and> (\<exists>l. tasks s ! i = Running l))"
  | "i < length (tasks s)" "tasks s ! i = Running []"
    "step t s (i, net) = set_task i Resolved s"
  | it todo e where "i < length (tasks s)" "tasks s ! i = Running (it # todo)"
    "runRequest net it = Inl e" "step t s (i, net) = set_task i (Crashed e) s"
  | it todo r e where "i < length (tasks s)" "tasks s ! i = Running (it # todo)"
    "runRequest net it = Inr r" "updateProgress (Suc (completedRequests s)) t = Inl e"
    "step t s (i, net) =
       set_task i (Crashed e)
         (s\<lparr>results := results s @ [r], completedRequests := Suc (completedRequests s)\<rparr>)"
  | it todo r line where "i < length (tasks s)" "tasks s ! i = Running (it # todo)"
    "runRequest net it = Inr r" "updateProgress (Suc (completedRequests s)) t = Inr line"
    "step t s (i, net) =
       set_task i (Running todo)
         (s\<lparr>results := results s @ [r], completedRequests := Suc (completedRequests s),
            stdout := stdout s @ [line]\<rparr>)"
proof (cases "i < length (tasks s)")
  case False
  then have "step t s (i, net) = s" by (simp add: step_def)
  with False that(1) show ?thesis by simp
next
  case len: True
  show ?thesis
  proof (cases "tasks s ! i")
    case (Running l)
    show ?thesis
    proof (cases l)
      case Nil
      with Running len that(2) show ?thesis by (simp add: step_def)
    next
      case (Cons it todo)
      show ?thesis
      proof (cases "runRequest net it")
        case (Inl e)
        with Running Cons len that(3) show ?thesis by (simp add: step_def)
      next
        case (Inr r)
        show ?thesis
        proof (cases "updateProgress (Suc (completedRequests s)) t")
          case (Inl e)
          with Running Cons len \<open>runRequest net it = Inr r\<close> that(4) [of it todo r e]
          show ?thesis by (simp add: step_def Let_def)
        next
          case (Inr line)
          with Running Cons len \<open>runRequest net it = Inr r\<close> that(5) [of it todo r line]
          show ?thesis by (simp add: step_def Let_def)
        qed
      qed
    qed
  next
    case Resolved
    with len have "step t s (i, net) = s" by (simp add: step_def)
    with Resolved that(1) show ?thesis by simp
  next
    case (Crashed e)
    with len have "step t s (i, net) = s" by (simp add: step_def)
    with Crashed that(1) show ?thesis by simp
  qed
qed

lemma set_task_simps [simp]:
  "results (set_task i u s) = results s"
  "completedRequests (set_task i u s) = completedRequests s"
  "stdout (set_task i u s) = stdout s"
  "tasks (set_task i u s) = (tasks s)[i := u]"
  "thrown (set_task i u s) = thrown s"
  by (simp_all add: set_task_def)

lemma in_set_updateD: "u \<in> set (xs[i := y]) \<Longrightarrow> u = y \<or> u \<in> set xs"
  using set_update_subset_insert [of xs i y] by auto

lemma ball_update:
  assumes "\<forall>u \<in> set ts. P u" and "P y"
  shows "\<forall>u \<in> set (ts[i := y]). P u"
  using assms in_set_updateD [of _ ts i y] by blast

lemma todo_update:
  assumes "\<forall>u \<in> set ts. \<forall>l. u = Running l \<longrightarrow> set l \<subseteq> C"
    and "\<forall>l. y = Running l \<longrightarrow> set l \<subseteq> C"
  shows "\<forall>u \<in> set (ts[i := y]). \<forall>l. u = Running l \<longrightarrow> set l \<subseteq> C"
  using assms in_set_updateD [of _ ts i y] by blast

lemma sum_list_map_update:
  fixes f :: "'a \<Rightarrow> nat"
  shows "i < length xs \<Longrightarrow> sum_list (map f (xs[i := y])) + f (xs ! i) = sum_list (map f xs) + f y"
proof (induction xs arbitrary: i)
  case Nil
  then show ?case by simp
next
  case (Cons x xs)
  show ?case
  proof (cases i)
    case 0
    then show ?thesis by simp
  next
    case (Suc j)
    with Cons.prems have "j < length xs" by simp
    from Cons.IH [OF this] Suc show ?thesis by simp
  qed
qed

lemma list_ex_update_keep:
  assumes "list_ex P xs" "i < length xs" "\<not> P (xs ! i)"
  shows "list_ex P (xs[i := y])"
proof -
  from assms(1) obtain j where j: "j < length xs" "P (xs ! j)" by (auto simp: list_ex_iff in_set_conv_nth)
  with assms(3) have "j \<noteq> i" by auto
  with j have "j < length (xs[i := y])" "P (xs[i := y] ! j)" by simp_all
  then show ?thesis unfolding list_ex_iff by (metis nth_mem)
qed

lemma outstanding_set_task:
  assumes "i < length (tasks s)"
  shows "outstanding (set_task i u s) + pending (tasks s ! i) = outstanding s + pending u"
  using sum_list_map_update [OF assms, of pending u] by (simp add: outstanding_def)

lemma outstanding_update [simp]:
  "outstanding (s\<lparr>results := a\<rparr>) = outstanding s"
  "outstanding (s\<lparr>completedRequests := b\<rparr>) = outstanding s"
  "outstanding (s\<lparr>stdout := c\<rparr>) = outstanding s"
  by (simp_all add: outstanding_def)

lemma pending_le_outstanding:
  assumes "i < length (tasks s)"
  shows "pending (tasks s ! i) \<le> outstanding s"
proof -
  have "pending (tasks s ! i) \<in> set (map pending (tasks s))" using assms by simp
  then show ?thesis unfolding outstanding_def by (simp add: member_le_sum_list)
qed

lemma run_events_Nil [simp]: "run_events cfg coll [] = start cfg coll"
  by (simp add: run_events_def)

lemma run_events_snoc:
  "run_events cfg coll (evs @ [(i, net)])
     = step (totalRequests cfg coll) (run_events cfg coll evs) (i, net)"
  by (simp add: run_events_def)

lemma start_simps [simp]:
  "results (start cfg coll) = []"
  "completedRequests (start cfg coll) = 0"
  "stdout (start cfg coll) = []"
  "length (tasks (start cfg coll)) = spawned cfg"
  by (simp_all add: start_def spawned_def split: sum.split)

lemma tasks_start:
  "tasks (start cfg coll)
     = replicate (spawned cfg) (Running (concat (replicate (nat (repetitions cfg)) coll)))"
  by (simp add: start_def spawned_def split: sum.split)

lemma thrown_start: "thrown (start cfg coll) = None \<longleftrightarrow> users cfg < 2 ^ 32"
  by (simp add: start_def Array_from_length_def)

lemma spawned_eq: "users cfg < 2 ^ 32 \<Longrightarrow> spawned cfg = nat (users cfg)"
  by (simp add: spawned_def Array_from_length_def)

lemma spawned_le: "spawned cfg \<le> nat (users cfg)"
  by (simp add: spawned_def Array_from_length_def)

lemma outstanding_start: "outstanding (start cfg coll) = work cfg coll"
  by (simp add: outstanding_def tasks_start work_def sum_list_replicate length_concat)

lemma thrown_step: "thrown (step t s (i, net)) = thrown s"
  by (cases rule: step_cases [where t = t and s = s and i = i and net = net]) simp_all

lemma thrown_run: "thrown (run_events cfg coll evs) = None \<longleftrightarrow> users cfg < 2 ^ 32"
proof (induction evs rule: rev_induct)
  case Nil
  show ?case by (simp add: thrown_start)
next
  case (snoc ev evs)
  obtain i net where ev: "ev = (i, net)" by (cases ev)
  from snoc show ?case unfolding ev run_events_snoc by (simp add: thrown_step)
qed

lemma length_tasks_step: "length (tasks (step t s (i, net))) = length (tasks s)"
  by (cases rule: step_cases [where t = t and s = s and i = i and net = net]) simp_all

lemma length_tasks_run: "length (tasks (run_events cfg coll evs)) = spawned cfg"
proof (induction evs rule: rev_induct)
  case Nil
  show ?case by simp
next
  case (snoc ev evs)
  obtain i net where ev: "ev = (i, net)" by (cases ev)
  from snoc show ?case unfolding ev run_events_snoc by (simp add: length_tasks_step)
qed

lemma step_counter:
  assumes "completedRequests s = length (results s)"
  shows "completedRequests (step t s (i, net)) = length (results (step t s (i, net)))"
  using assms by (cases rule: step_cases [where t = t and s = s and i = i and net = net]) simp_all

lemma run_counter:
  "completedRequests (run_events cfg coll evs) = length (results (run_events cfg coll evs))"
proof (induction evs rule: rev_induct)
  case Nil
  show ?case by simp
next
  case (snoc ev evs)
  obtain i net where "ev = (i, net)" by (cases ev)
  with snoc show ?case by (simp only: run_events_snoc step_counter)
qed

lemma step_budget:
  "length (results (step t s (i, net))) + outstanding (step t s (i, net))
     \<le> length (results s) + outstanding s"
  proof (cases rule: step_cases [where t = t and s = s and i = i and net = net])
    case idle
    then show ?thesis by simp
  next
    case resolve
    with outstanding_set_task [OF resolve(1), of Resolved] show ?thesis by simp
  next
    case (crash it todo e)
    with outstanding_set_task [OF crash(1), of "Crashed e"] show ?thesis by simp
  next
    case (push_crash it todo r e)
    let ?s' = "s\<lparr>results := results s @ [r], completedRequests := Suc (completedRequests s)\<rparr>"
    have "i < length (tasks ?s')" using push_crash(1) by simp
    from outstanding_set_task [OF this, of "Crashed e"] push_crash show ?thesis by simp
  next
    case (push it todo r line)
    let ?s' = "s\<lparr>results := results s @ [r], completedRequests := Suc (completedRequests s),
            stdout := stdout s @ [line]\<rparr>"
    have "i < length (tasks ?s')" using push(1) by simp
    from outstanding_set_task [OF this, of "Running todo"] push show ?thesis by simp
  qed

lemma run_budget:
  "length (results (run_events cfg coll evs)) + outstanding (run_events cfg coll evs)
     \<le> work cfg coll"
proof (induction evs rule: rev_induct)
  case Nil
  show ?case by (simp add: outstanding_start)
next
  case (snoc ev evs)
  obtain i net where "ev = (i, net)" by (cases ev)
  with snoc step_budget [of "totalRequests cfg coll" "run_events cfg coll evs" i net]
  show ?case by (simp only: run_events_snoc)
qed

lemma step_exact:
  assumes "\<not> list_ex crashed (tasks (step t s (i, net)))"
  shows "\<not> list_ex crashed (tasks s)
    \<and> length (results (step t s (i, net))) + outstanding (step t s (i, net))
        = length (results s) + outstanding s"
  proof (cases rule: step_cases [where t = t and s = s and i = i and net = net])
    case idle
    then show ?thesis using assms by simp
  next
    case resolve
    have "\<not> list_ex crashed (tasks s)"
    proof
      assume "list_ex crashed (tasks s)"
      then have "list_ex crashed ((tasks s)[i := Resolved])"
        using resolve(1,2) by (intro list_ex_update_keep) simp_all
      with assms resolve(3) show False by simp
    qed
    with outstanding_set_task [OF resolve(1), of Resolved] resolve show ?thesis by simp
  next
    case (crash it todo e)
    have "crashed ((tasks s)[i := Crashed e] ! i)" using crash(1) by simp
    moreover have "i < length ((tasks s)[i := Crashed e])" using crash(1) by simp
    ultimately have "list_ex crashed ((tasks s)[i := Crashed e])"
      unfolding list_ex_iff by (metis nth_mem)
    with assms crash(4) show ?thesis by simp
  next
    case (push_crash it todo r e)
    have "crashed ((tasks s)[i := Crashed e] ! i)" using push_crash(1) by simp
    moreover have "i < length ((tasks s)[i := Crashed e])" using push_crash(1) by simp
    ultimately have "list_ex crashed ((tasks s)[i := Crashed e])"
      unfolding list_ex_iff by (metis nth_mem)
    with assms push_crash(5) show ?thesis by simp
  next
    case (push it todo r line)
    let ?s' = "s\<lparr>results := results s @ [r], completedRequests := Suc (completedRequests s),
            stdout := stdout s @ [line]\<rparr>"
    have "\<not> list_ex crashed (tasks s)"
    proof
      assume "list_ex crashed (tasks s)"
      then have "list_ex crashed ((tasks s)[i := Running todo])"
        using push(1,2) by (intro list_ex_update_keep) simp_all
      with assms push(5) show False by simp
    qed
    moreover have "i < length (tasks ?s')" using push(1) by simp
    from outstanding_set_task [OF this, of "Running todo"] push
    have "length (results (step t s (i, net))) + outstanding (step t s (i, net))
        = length (results s) + outstanding s" by simp
    ultimately show ?thesis by simp
  qed

lemma run_exact:
  "\<not> list_ex crashed (tasks (run_events cfg coll evs)) \<Longrightarrow>
   length (results (run_events cfg coll evs)) + outstanding (run_events cfg coll evs)
     = work cfg coll"
proof (induction evs rule: rev_induct)
  case Nil
  show ?case by (simp add: outstanding_start)
next
  case (snoc ev evs)
  obtain i net where ev: "ev = (i, net)" by (cases ev)
  from snoc.prems [unfolded ev run_events_snoc] step_exact snoc.IH
  show ?case unfolding ev run_events_snoc by metis
qed

lemma step_names:
  assumes "\<forall>r \<in> set (results s). \<exists>it \<in> set coll. result.name r = item.name it"
    and "\<forall>u \<in> set (tasks s). \<forall>l. u = Running l \<longrightarrow> set l \<subseteq> set coll"
  shows "(\<forall>r \<in> set (results (step t s (i, net))). \<exists>it \<in> set coll. result.name r = item.name it)
    \<and> (\<forall>u \<in> set (tasks (step t s (i, net))). \<forall>l. u = Running l \<longrightarrow> set l \<subseteq> set coll)"
proof (cases rule: step_cases [where t = t and s = s and i = i and net = net])
  case idle
  with assms show ?thesis by simp
next
  case resolve
  from todo_update [OF assms(2), of Resolved i] assms(1) resolve(3) show ?thesis by simp
next
  case (crash it todo e)
  from todo_update [OF assms(2), of "Crashed e" i] assms(1) crash(4) show ?thesis by simp
next
  case (push_crash it todo r e)
  have "Running (it # todo) \<in> set (tasks s)" using push_crash(1,2) by (metis nth_mem)
  with assms(2) have "set (it # todo) \<subseteq> set coll" by blast
  then have "it \<in> set coll" by simp
  moreover have "result.name r = item.name it" using push_crash(3) by (rule runRequest_name)
  ultimately have "\<exists>it \<in> set coll. result.name r = item.name it" by blast
  with todo_update [OF assms(2), of "Crashed e" i] assms(1) push_crash(5) show ?thesis by simp
next
  case (push it todo r line)
  have "Running (it # todo) \<in> set (tasks s)" using push(1,2) by (metis nth_mem)
  with assms(2) have "set (it # todo) \<subseteq> set coll" by blast
  then have "it \<in> set coll" "set todo \<subseteq> set coll" by simp_all
  moreover have "result.name r = item.name it" using push(3) by (rule runRequest_name)
  ultimately have "\<exists>it \<in> set coll. result.name r = item.name it" 
    and "\<forall>l. Running todo = Running l \<longrightarrow> set l \<subseteq> set coll" by auto
  with todo_update [OF assms(2), of "Running todo" i] assms(1) push(5) show ?thesis by simp
qed

lemma run_names:
  "(\<forall>r \<in> set (results (run_events cfg coll evs)). \<exists>it \<in> set coll. result.name r = item.name it)
   \<and> (\<forall>u \<in> set (tasks (run_events cfg coll evs)). \<forall>l. u = Running l \<longrightarrow> set l \<subseteq> set coll)"
proof (induction evs rule: rev_induct)
  case Nil
  show ?case by (auto simp: tasks_start)
next
  case (snoc ev evs)
  obtain i net where ev: "ev = (i, net)" by (cases ev)
  from snoc show ?case unfolding ev run_events_snoc by (intro step_names) simp_all
qed

lemma all_resolved_done:
  assumes "all_resolved s"
  shows "outstanding s = 0" and "\<not> list_ex crashed (tasks s)" and "thrown s = None"
proof -
  from assms have r: "\<forall>u \<in> set (tasks s). u = Resolved" by (simp add: all_resolved_def list_all_iff)
  then have "\<forall>u \<in> set (tasks s). pending u = 0" by auto
  then show "outstanding s = 0" by (simp add: outstanding_def)
  from r show "\<not> list_ex crashed (tasks s)" by (auto simp: list_ex_iff)
  from assms show "thrown s = None" by (simp add: all_resolved_def)
qed

lemma totalRequests_work:
  "0 \<le> users cfg \<Longrightarrow> users cfg < 2 ^ 32 \<Longrightarrow> 0 \<le> repetitions cfg \<Longrightarrow>
   totalRequests cfg coll = int (work cfg coll)"
  by (simp add: totalRequests_def work_def spawned_eq)

text \<open>
  Claim C1. For every configuration with \<open>users \<ge> 1\<close> and \<open>repetitions \<ge> 1\<close> and every
  collection, whatever the order of the events and whatever the network does, a run in
  which every user has resolved has pushed exactly \<open>users \<times> repetitions \<times> L\<close> results, the
  \<open>totalRequests\<close> computed before the run, and the name of every result is the name of a
  template of the collection.
\<close>

theorem simulateLoad_result_count:
  assumes "1 \<le> users cfg" and "1 \<le> repetitions cfg"
    and "all_resolved (run_events cfg collection evs)"
  shows "int (length (results (run_events cfg collection evs)))
           = users cfg * repetitions cfg * int (length collection)
       \<and> int (length (results (run_events cfg collection evs))) = totalRequests cfg collection
       \<and> (\<forall>r \<in> set (results (run_events cfg collection evs)).
             \<exists>it \<in> set collection. result.name r = item.name it)"
proof -
  let ?s = "run_events cfg collection evs"
  from all_resolved_done(1,2) [OF assms(3)] run_exact [of cfg collection evs]
  have "length (results ?s) = work cfg collection" by simp
  moreover have "users cfg < 2 ^ 32"
    using all_resolved_done(3) [OF assms(3)] by (simp only: thrown_run)
  then have "totalRequests cfg collection = int (work cfg collection)"
    using assms(1,2) by (intro totalRequests_work) simp_all
  ultimately have "int (length (results ?s)) = totalRequests cfg collection" by simp
  with run_names [of cfg collection evs] show ?thesis by (simp add: totalRequests_def)
qed

theorem simulateLoad_result_count_witness:
  "1 \<le> users cfg2 \<and> 1 \<le> repetitions cfg2
   \<and> all_resolved (run_events cfg2 [ping] four_events)
   \<and> length (results (run_events cfg2 [ping] four_events)) = 2
   \<and> totalRequests cfg2 [ping] = 2"
proof -
  have u: "1 \<le> users cfg2" and r: "1 \<le> repetitions cfg2" by (simp_all add: cfg2_def)
  have a: "all_resolved (run_events cfg2 [ping] four_events)" by code_simp
  from simulateLoad_result_count [OF u r a]
  have "int (length (results (run_events cfg2 [ping] four_events))) = 2"
    and "totalRequests cfg2 [ping] = 2" by (simp_all add: cfg2_def)
  with u r a show ?thesis by simp
qed

section \<open>The progress lines of a run\<close>

lemma step_stdout_le:
  assumes "length (stdout s) \<le> completedRequests s"
  shows "length (stdout (step t s (i, net))) \<le> completedRequests (step t s (i, net))"
  using assms by (cases rule: step_cases [where t = t and s = s and i = i and net = net]) simp_all

lemma run_stdout_le:
  "length (stdout (run_events cfg coll evs)) \<le> completedRequests (run_events cfg coll evs)"
proof (induction evs rule: rev_induct)
  case Nil
  show ?case by simp
next
  case (snoc ev evs)
  obtain i net where "ev = (i, net)" by (cases ev)
  with snoc show ?case by (simp only: run_events_snoc step_stdout_le)
qed

lemma step_stdout:
  assumes len: "length (stdout s) = completedRequests s"
    and lines: "\<forall>k < length (stdout s). updateProgress (Suc k) t = Inr (stdout s ! k)"
    and cnt: "completedRequests s = length (results s)"
    and bud: "int (length (results s) + outstanding s) \<le> t"
  shows "length (stdout (step t s (i, net))) = completedRequests (step t s (i, net))
    \<and> (\<forall>k < length (stdout (step t s (i, net))).
          updateProgress (Suc k) t = Inr (stdout (step t s (i, net)) ! k))"
proof (cases rule: step_cases [where t = t and s = s and i = i and net = net])
  case idle
  with len lines show ?thesis by simp
next
  case resolve
  with len lines show ?thesis by simp
next
  case (crash it todo e)
  with len lines show ?thesis by simp
next
  case (push_crash it todo r e)
  from pending_le_outstanding [OF push_crash(1)] push_crash(2)
  have "1 \<le> outstanding s" by simp
  with bud cnt have "0 < t" "int (Suc (completedRequests s)) \<le> t" by simp_all
  from updateProgress_ok [OF this] push_crash(4) show ?thesis by simp
next
  case (push it todo r line)
  have "\<forall>k < Suc (length (stdout s)). updateProgress (Suc k) t = Inr ((stdout s @ [line]) ! k)"
  proof (intro allI impI)
    fix k assume "k < Suc (length (stdout s))"
    then consider "k < length (stdout s)" | "k = length (stdout s)" by linarith
    then show "updateProgress (Suc k) t = Inr ((stdout s @ [line]) ! k)"
    proof cases
      case 1
      with lines show ?thesis by (simp add: nth_append)
    next
      case 2
      then have "(stdout s @ [line]) ! k = line" by simp
      moreover have "updateProgress (Suc k) t = Inr line" using push(4) len 2 by simp
      ultimately show ?thesis by simp
    qed
  qed
  with len push(5) show ?thesis by simp
qed

lemma run_stdout:
  assumes "totalRequests cfg coll = int (work cfg coll)"
  shows "length (stdout (run_events cfg coll evs)) = completedRequests (run_events cfg coll evs)
    \<and> (\<forall>k < length (stdout (run_events cfg coll evs)).
          updateProgress (Suc k) (totalRequests cfg coll) = Inr (stdout (run_events cfg coll evs) ! k))"
proof (induction evs rule: rev_induct)
  case Nil
  show ?case by simp
next
  case (snoc ev evs)
  obtain i net where ev: "ev = (i, net)" by (cases ev)
  have "int (length (results (run_events cfg coll evs)) + outstanding (run_events cfg coll evs))
          \<le> totalRequests cfg coll"
    using run_budget [of cfg coll evs] assms by simp
  with snoc run_counter [of cfg coll evs] show ?case
    unfolding ev run_events_snoc by (intro step_stdout) simp_all
qed

lemma work_negative:
  assumes "\<not> (0 \<le> users cfg \<and> users cfg < 2 ^ 32 \<and> 0 \<le> repetitions cfg)"
  shows "work cfg coll = 0"
  using assms by (auto simp: work_def spawned_def Array_from_length_def)

lemma run_no_work:
  assumes "work cfg coll = 0"
  shows "results (run_events cfg coll evs) = []" and "stdout (run_events cfg coll evs) = []"
    and "completedRequests (run_events cfg coll evs) = 0"
proof -
  from run_budget [of cfg coll evs] assms
  show r: "results (run_events cfg coll evs) = []" by simp
  with run_counter [of cfg coll evs]
  show c: "completedRequests (run_events cfg coll evs) = 0" by simp
  with run_stdout_le [of cfg coll evs] show "stdout (run_events cfg coll evs) = []" by simp
qed

lemma run_line:
  assumes "k < length (stdout (run_events cfg coll evs))"
  shows "totalRequests cfg coll = int (work cfg coll)"
    and "0 < totalRequests cfg coll"
    and "int (Suc k) \<le> totalRequests cfg coll"
    and "updateProgress (Suc k) (totalRequests cfg coll) = Inr (stdout (run_events cfg coll evs) ! k)"
proof -
  let ?s = "run_events cfg coll evs"
  have nonneg: "0 \<le> users cfg \<and> users cfg < 2 ^ 32 \<and> 0 \<le> repetitions cfg"
  proof (rule ccontr)
    assume "\<not> ?thesis"
    then have "work cfg coll = 0" by (rule work_negative)
    then have "stdout ?s = []" by (rule run_no_work)
    with assms show False by simp
  qed
  then show t: "totalRequests cfg coll = int (work cfg coll)" by (simp add: totalRequests_work)
  from run_stdout [OF t, of evs] assms
  show "updateProgress (Suc k) (totalRequests cfg coll) = Inr (stdout ?s ! k)" by simp
  have "Suc k \<le> length (stdout ?s)" using assms by simp
  also have "\<dots> \<le> completedRequests ?s" by (rule run_stdout_le)
  also have "\<dots> = length (results ?s)" by (rule run_counter)
  also have "\<dots> \<le> work cfg coll" using run_budget [of cfg coll evs] by simp
  finally have "int (Suc k) \<le> int (work cfg coll)" by (simp only: of_nat_le_iff)
  with t show "int (Suc k) \<le> totalRequests cfg coll" by simp
  then show "0 < totalRequests cfg coll" by simp
qed

text \<open>
  Claim C6, as the code has it. In every run, the progress line written after the \<open>c\<close>-th
  result shows \<^verbatim>\<open>Math.round((c / t) * 100)\<close> for the total \<open>t > 0\<close>: an integer within
  \<open>1/2 + 2\<^sup>-\<^sup>4\<^sup>4\<close> of \<open>100 c / t\<close>, the nearest integer and not the floor; and no earlier
  line of the run shows a larger percentage.
\<close>

theorem progress_reports:
  assumes "k < length (stdout (run_events cfg collection evs))"
  shows "\<exists>p. percentage (stdout (run_events cfg collection evs) ! k) = Num (of_int p)
    \<and> percentage (stdout (run_events cfg collection evs) ! k)
        = progress_percentage (Suc k) (totalRequests cfg collection)
    \<and> shown_completedRequests (stdout (run_events cfg collection evs) ! k) = Suc k
    \<and> 0 < totalRequests cfg collection
    \<and> \<bar>of_int p - 100 * of_nat (Suc k) / of_int (totalRequests cfg collection)\<bar>
        \<le> (1 / 2 + 1 / 2 ^ 44 :: rat)
    \<and> (\<forall>j < k. \<exists>p'. percentage (stdout (run_events cfg collection evs) ! j) = Num (of_int p')
                   \<and> p' \<le> p)"
proof -
  let ?s = "run_events cfg collection evs"
  let ?t = "totalRequests cfg collection"
  define pct where "pct c = \<lfloor>fl (fl (of_nat c / of_int ?t) * 100) + 1 / 2\<rfloor>" for c :: nat
  note l = run_line [OF assms]
  have line: "percentage (stdout ?s ! j) = Num (of_int (pct (Suc j)))
      \<and> shown_completedRequests (stdout ?s ! j) = Suc j
      \<and> percentage (stdout ?s ! j) = progress_percentage (Suc j) ?t" if "j \<le> k" for j
  proof -
    from that assms have j: "j < length (stdout ?s)" by simp
    note lj = run_line [OF j]
    from updateProgress_ok [OF lj(2) lj(3)] lj(4)
    show ?thesis by (auto simp: progress_percentage_eq [OF lj(2)] pct_def)
  qed
  have near: "\<bar>of_int (pct (Suc k)) - 100 * of_nat (Suc k) / of_int ?t\<bar> \<le> (1 / 2 + 1 / 2 ^ 44 :: rat)"
    unfolding pct_def using l(2) l(3) by (rule pct_near)
  have mono: "\<exists>p'. percentage (stdout ?s ! j) = Num (of_int p') \<and> p' \<le> pct (Suc k)" if "j < k" for j
  proof -
    from that have "j \<le> k" by simp
    from line [OF this] have "percentage (stdout ?s ! j) = Num (of_int (pct (Suc j)))" by simp
    moreover have "pct (Suc j) \<le> pct (Suc k)"
      unfolding pct_def using l(2) that by (intro pct_mono) simp_all
    ultimately show ?thesis by blast
  qed
  from line [of k] near mono l(2) show ?thesis by blast
qed

text \<open>
  Claim C6 as stated fails: after 2 of 3 requests the indicator is 67, and the floor of
  \<open>2/3 \<times> 100\<close> is 66.
\<close>

theorem progress_floor_counterexample:
  "progress_percentage 2 3 = Num 67
   \<and> \<lfloor>(2 / 3 * 100 :: rat)\<rfloor> = 66
   \<and> map percentage (stdout (run_events cfg3 [ping] three_events)) = [Num 33, Num 67, Num 100]"
  by code_simp

theorem progress_reports_witness:
  "1 < length (stdout (run_events cfg3 [ping] three_events))
   \<and> percentage (stdout (run_events cfg3 [ping] three_events) ! 1) = Num 67
   \<and> percentage (stdout (run_events cfg3 [ping] three_events) ! 0) = Num 33
   \<and> totalRequests cfg3 [ping] = 3"
proof -
  have len: "1 < length (stdout (run_events cfg3 [ping] three_events))" by code_simp
  have t: "totalRequests cfg3 [ping] = 3" by (simp add: totalRequests_def cfg3_def)
  have p: "progress_percentage (Suc 1) 3 = Num 67" by code_simp
  have q: "percentage (stdout (run_events cfg3 [ping] three_events) ! 0) = Num 33" by code_simp
  from progress_reports [OF len] t p
  have "percentage (stdout (run_events cfg3 [ping] three_events) ! 1) = Num 67" by auto
  with len t q show ?thesis by simp
qed

text \<open>
  Claim C9, as the code has it. In every state that a run can reach, the counter \<open>completedRequests\<close> is the
  length of \<open>results\<close>. For \<open>users \<ge> 1\<close> and \<open>repetitions \<ge> 1\<close> one progress line has been
  written per result, and once all users have resolved the counter equals \<open>totalRequests\<close>;
  with a collection that is not empty, the last progress line then shows 100 percent.
\<close>

theorem counter_tracks_results:
  "completedRequests (run_events cfg collection evs) = length (results (run_events cfg collection evs))
   \<and> (1 \<le> users cfg \<and> 1 \<le> repetitions cfg \<longrightarrow>
        length (stdout (run_events cfg collection evs))
          = length (results (run_events cfg collection evs))
        \<and> (all_resolved (run_events cfg collection evs) \<longrightarrow>
             int (completedRequests (run_events cfg collection evs)) = totalRequests cfg collection
             \<and> (collection \<noteq> [] \<longrightarrow>
                  stdout (run_events cfg collection evs) \<noteq> []
                  \<and> percentage (last (stdout (run_events cfg collection evs))) = Num 100
                  \<and> shown_completedRequests (last (stdout (run_events cfg collection evs)))
                      = completedRequests (run_events cfg collection evs))))"
proof -
  let ?s = "run_events cfg collection evs"
  let ?t = "totalRequests cfg collection"
  have cnt: "completedRequests ?s = length (results ?s)" by (rule run_counter)
  have rest: "length (stdout ?s) = length (results ?s)
        \<and> (all_resolved ?s \<longrightarrow>
             int (completedRequests ?s) = ?t
             \<and> (collection \<noteq> [] \<longrightarrow>
                  stdout ?s \<noteq> [] \<and> percentage (last (stdout ?s)) = Num 100
                  \<and> shown_completedRequests (last (stdout ?s)) = completedRequests ?s))"
    if u: "1 \<le> users cfg" and r: "1 \<le> repetitions cfg"
  proof (cases "users cfg < 2 ^ 32")
    case False
    then have w0: "work cfg collection = 0" by (intro work_negative) simp
    note none = run_no_work [OF w0, of evs]
    have "\<not> all_resolved ?s"
      using False all_resolved_done(3) [of ?s] thrown_run [of cfg collection evs] by auto
    with none show ?thesis by simp
  next
    case small: True
    have t: "?t = int (work cfg collection)"
      using u r small by (intro totalRequests_work) simp_all
    note out = run_stdout [OF t, of evs]
    have len: "length (stdout ?s) = length (results ?s)" using out cnt by simp
    have fin: "int (completedRequests ?s) = ?t
             \<and> (collection \<noteq> [] \<longrightarrow>
                  stdout ?s \<noteq> [] \<and> percentage (last (stdout ?s)) = Num 100
                  \<and> shown_completedRequests (last (stdout ?s)) = completedRequests ?s)"
      if a: "all_resolved ?s"
    proof -
      from all_resolved_done(1,2) [OF a] run_exact [of cfg collection evs]
      have w: "length (results ?s) = work cfg collection" by simp
      with cnt t have all: "int (completedRequests ?s) = ?t" by simp
      have "stdout ?s \<noteq> [] \<and> percentage (last (stdout ?s)) = Num 100
                  \<and> shown_completedRequests (last (stdout ?s)) = completedRequests ?s"
        if ne: "collection \<noteq> []"
      proof -
        have "0 < work cfg collection" using u r ne by (simp add: work_def spawned_eq [OF small])
        with w len have pos: "0 < length (stdout ?s)" by simp
        then have ne': "stdout ?s \<noteq> []" by simp
        define k where "k = length (stdout ?s) - 1"
        have k: "k < length (stdout ?s)" "Suc k = completedRequests ?s"
          using pos len cnt by (simp_all add: k_def)
        have last: "last (stdout ?s) = stdout ?s ! k" using ne' by (simp add: last_conv_nth k_def)
        note l = run_line [OF k(1)]
        from updateProgress_ok [OF l(2) l(3)] l(4)
        have "percentage (stdout ?s ! k) = progress_percentage (Suc k) ?t"
          and "shown_completedRequests (stdout ?s ! k) = Suc k" by auto
        moreover have "progress_percentage (Suc k) ?t = Num 100"
          using l(2) all k(2) by (intro progress_percentage_full) simp_all
        ultimately show ?thesis using ne' last k(2) by simp
      qed
      with all show ?thesis by simp
    qed
    with len show ?thesis by simp
  qed
  with cnt show ?thesis by simp
qed

text \<open>
  Claim C9 as stated fails outside these ranges. With \<open>users = 2\<close> and \<open>repetitions = -3\<close>
  the loop of a user makes no turn: both users resolve without a request, the counter stays
  0 while \<open>totalRequests\<close> is -6, and no progress line is written. With an empty collection
  the run completes without any progress line, so none shows 100 percent.
\<close>

theorem counter_tracks_results_counterexample:
  "all_resolved (run_events cfg_negative [ping] [(0, ok50), (1, ok50)])
   \<and> completedRequests (run_events cfg_negative [ping] [(0, ok50), (1, ok50)]) = 0
   \<and> totalRequests cfg_negative [ping] = - 6
   \<and> stdout (run_events cfg_negative [ping] [(0, ok50), (1, ok50)]) = []
   \<and> all_resolved (run_events cfg2 [] [(0, ok50), (1, ok50)])
   \<and> stdout (run_events cfg2 [] [(0, ok50), (1, ok50)]) = []"
  by code_simp

theorem counter_tracks_results_witness:
  "1 \<le> users cfg3 \<and> 1 \<le> repetitions cfg3
   \<and> all_resolved (run_events cfg3 [ping] (three_events @ three_events))
   \<and> [ping] \<noteq> []
   \<and> completedRequests (run_events cfg3 [ping] (three_events @ three_events)) = 3
   \<and> percentage (last (stdout (run_events cfg3 [ping] (three_events @ three_events)))) = Num 100"
proof -
  have u: "1 \<le> users cfg3 \<and> 1 \<le> repetitions cfg3" by (simp add: cfg3_def)
  have a: "all_resolved (run_events cfg3 [ping] (three_events @ three_events))" by code_simp
  have t: "totalRequests cfg3 [ping] = 3" by (simp add: totalRequests_def cfg3_def)
  from counter_tracks_results [of cfg3 "[ping]" "three_events @ three_events"] u a t
  have "completedRequests (run_events cfg3 [ping] (three_events @ three_events)) = 3"
    and "percentage (last (stdout (run_events cfg3 [ping] (three_events @ three_events)))) = Num 100"
    by simp_all
  with u a show ?thesis by simp
qed

section \<open>A run without requests\<close>

lemma showSummary_Nil: "showSummary maxargs [] = Inr empty_report"
  by (simp add: showSummary_def Object_entries_def empty_report_def rate_def js_sub_def
      of_count_def sum_numbers_def)

lemma resolve_all:
  assumes "tasks s = replicate a Resolved @ replicate b (Running [])" and "thrown s = None"
  shows "all_resolved (foldl (step t) s (map (\<lambda>i. (i, net)) [a..<a + b]))"
  using assms
proof (induction b arbitrary: s a)
  case 0
  then show ?case by (simp add: all_resolved_def list_all_iff)
next
  case (Suc b)
  have len: "a < length (tasks s)" using Suc.prems by simp
  have at: "tasks s ! a = Running []" using Suc.prems by (simp add: nth_append)
  from len at have st: "step t s (a, net) = set_task a Resolved s" by (simp add: step_def)
  have "tasks (set_task a Resolved s) = replicate (Suc a) Resolved @ replicate b (Running [])"
    using Suc.prems by (simp add: list_update_append replicate_append_same)
  moreover have "thrown (set_task a Resolved s) = None" using Suc.prems by simp
  ultimately have "all_resolved
     (foldl (step t) (set_task a Resolved s) (map (\<lambda>i. (i, net)) [Suc a..<Suc a + b]))"
    by (rule Suc.IH)
  moreover have "[a..<a + Suc b] = a # [Suc a..<Suc a + b]" by (simp add: upt_rec)
  ultimately show ?case by (simp add: st)
qed

lemma start_no_work:
  assumes "work cfg coll = 0"
  shows "tasks (start cfg coll) = replicate 0 Resolved @ replicate (spawned cfg) (Running [])"
proof (cases "spawned cfg = 0")
  case True
  then show ?thesis by (simp add: tasks_start)
next
  case False
  with assms have "nat (repetitions cfg) = 0 \<or> coll = []" by (simp add: work_def)
  then have "concat (replicate (nat (repetitions cfg)) coll) = []" by auto
  then show ?thesis by (simp add: tasks_start)
qed

lemma totalRequests_zero: "totalRequests cfg coll = 0 \<Longrightarrow> work cfg coll = 0"
  by (auto simp: totalRequests_def work_def spawned_def Array_from_length_def)

lemma step_idle:
  assumes inv: "\<forall>u \<in> set (tasks s). u = Running [] \<or> u = Resolved"
  shows "\<forall>u \<in> set (tasks (step t s (i, net))). u = Running [] \<or> u = Resolved"
proof (cases rule: step_cases [where t = t and s = s and i = i and net = net])
  case idle
  with inv show ?thesis by simp
next
  case resolve
  have "Resolved = Running [] \<or> Resolved = Resolved" by simp
  from ball_update [OF inv this, of i] resolve(3) show ?thesis by simp
next
  case (crash it todo e)
  then have "Running (it # todo) \<in> set (tasks s)" by (metis nth_mem)
  with inv show ?thesis by auto
next
  case (push_crash it todo r e)
  then have "Running (it # todo) \<in> set (tasks s)" by (metis nth_mem)
  with inv show ?thesis by auto
next
  case (push it todo r line)
  then have "Running (it # todo) \<in> set (tasks s)" by (metis nth_mem)
  with inv show ?thesis by auto
qed

lemma run_idle:
  assumes "work cfg coll = 0"
  shows "\<forall>u \<in> set (tasks (run_events cfg coll evs)). u = Running [] \<or> u = Resolved"
proof (induction evs rule: rev_induct)
  case Nil
  show ?case by (simp add: start_no_work [OF assms])
next
  case (snoc ev evs)
  obtain i net where ev: "ev = (i, net)" by (cases ev)
  from step_idle [OF snoc] show ?case unfolding ev run_events_snoc .
qed

lemma run_idle_no_crash:
  assumes "work cfg coll = 0"
  shows "\<not> list_ex crashed (tasks (run_events cfg coll evs))"
  using run_idle [OF assms, of evs] by (auto simp: list_ex_iff)

text \<open>
  Claim C7, as the code has it. When \<open>totalRequests\<close> is 0 (an empty collection, for one),
  no request is made, no progress line is written and no user throws, whatever the events.
  With \<open>users\<close> below \<open>2\<^sup>3\<^sup>2\<close>, so that the tasks can be made, one turn of each user
  resolves them all and the summary is shown. The summary of no result is computed without
  an error: it has no row, and its global success rate and average time are \<^verbatim>\<open>0 / 0\<close>,
  which in JavaScript is the number \<^verbatim>\<open>NaN\<close>: not an exception, and not 0.
\<close>

theorem degenerate_run:
  assumes "totalRequests cfg collection = 0"
  shows "results (run_events cfg collection evs) = []
    \<and> stdout (run_events cfg collection evs) = []
    \<and> \<not> list_ex crashed (tasks (run_events cfg collection evs))
    \<and> (users cfg < 2 ^ 32 \<longrightarrow>
         all_resolved (run_events cfg collection (one_each (nat (users cfg)) net))
         \<and> (loadCollection json = collection \<longrightarrow>
              simulateLoad maxargs cfg json (one_each (nat (users cfg)) net)
                = Some (Inr empty_report)))
    \<and> showSummary maxargs [] = Inr empty_report
    \<and> table empty_report = [] \<and> globalSuccessRate empty_report = NaN
    \<and> globalAvgTime empty_report = NaN"
proof -
  from assms have w: "work cfg collection = 0" by (rule totalRequests_zero)
  note none = run_no_work [OF w]
  note calm = run_idle_no_crash [OF w, of evs]
  have fin: "all_resolved (run_events cfg collection (one_each (nat (users cfg)) net))
         \<and> (loadCollection json = collection \<longrightarrow>
              simulateLoad maxargs cfg json (one_each (nat (users cfg)) net)
                = Some (Inr empty_report))"
    if small: "users cfg < 2 ^ 32"
  proof -
    have "thrown (start cfg collection) = None" using small by (simp add: thrown_start)
    from resolve_all [OF start_no_work [OF w] this, of "totalRequests cfg collection" net]
    have a: "all_resolved (run_events cfg collection (one_each (nat (users cfg)) net))"
      by (simp add: run_events_def one_each_def spawned_eq [OF small])
    then have "simulateLoad maxargs cfg json (one_each (nat (users cfg)) net)
                = Some (Inr empty_report)"
      if "loadCollection json = collection"
      using that none(1) [of "one_each (nat (users cfg)) net"]
      by (simp add: simulateLoad_def showSummary_Nil)
    with a show ?thesis by simp
  qed
  with none(1,2) [of evs] calm show ?thesis by (simp add: showSummary_Nil empty_report_def)
qed

text \<open>
  Claim C7 as stated fails in two places. The two global figures of the empty summary are
  \<^verbatim>\<open>NaN\<close>, which is not 0 (and a number, not \<^verbatim>\<open>undefined\<close>). And with \<open>users = 2\<^sup>3\<^sup>2\<close> and an
  empty collection \<open>totalRequests\<close> is 0, but \<^verbatim>\<open>Array.from\<close> throws and the run does not
  complete.
\<close>

theorem degenerate_run_counterexample:
  "showSummary node_arguments [] = Inr empty_report
   \<and> globalSuccessRate empty_report = NaN \<and> globalAvgTime empty_report = NaN
   \<and> NaN \<noteq> Num 0
   \<and> totalRequests cfg_huge [] = 0
   \<and> thrown (run_events cfg_huge [] [(0, ok50)]) = Some RangeError
   \<and> \<not> all_resolved (run_events cfg_huge [] [(0, ok50)])
   \<and> simulateLoad node_arguments cfg_huge no_templates [(0, ok50)] = None"
proof -
  have a: "thrown (run_events cfg_huge [] [(0, ok50)]) = Some RangeError" by code_simp
  then have b: "\<not> all_resolved (run_events cfg_huge [] [(0, ok50)])"
    by (simp add: all_resolved_def)
  then have c: "simulateLoad node_arguments cfg_huge no_templates [(0, ok50)] = None"
    by (simp add: simulateLoad_def loadCollection_def no_templates_def)
  have d: "totalRequests cfg_huge [] = 0" by (simp add: totalRequests_def)
  from a b c d show ?thesis by (simp add: showSummary_Nil empty_report_def)
qed

theorem degenerate_run_witness:
  "totalRequests cfg2 [] = 0 \<and> users cfg2 < 2 ^ 32
   \<and> loadCollection no_templates = []
   \<and> simulateLoad node_arguments cfg2 no_templates (one_each 2 ok50) = Some (Inr empty_report)
   \<and> stdout (run_events cfg2 [] four_events) = []"
proof -
  have t: "totalRequests cfg2 [] = 0" by (simp add: totalRequests_def)
  have l: "loadCollection no_templates = []" by (simp add: loadCollection_def no_templates_def)
  have u: "nat (users cfg2) = 2" "users cfg2 < 2 ^ 32" by (simp_all add: cfg2_def)
  from degenerate_run [OF t, of four_events ok50 no_templates node_arguments] l u
  show ?thesis using t by simp
qed

section \<open>A template without request\<close>

lemma step_stuck:
  assumes bad: "item.request bad = None"
    and inv: "\<forall>u \<in> set (tasks s). crashed u \<or> (\<exists>l. u = Running l \<and> bad \<in> set l)"
  shows "\<forall>u \<in> set (tasks (step t s (i, net))). crashed u \<or> (\<exists>l. u = Running l \<and> bad \<in> set l)"
proof (cases rule: step_cases [where t = t and s = s and i = i and net = net])
  case idle
  with inv show ?thesis by simp
next
  case resolve
  then have "Running [] \<in> set (tasks s)" by (metis nth_mem)
  with inv show ?thesis by auto
next
  case (crash it todo e)
  have "crashed (Crashed e) \<or> (\<exists>l. Crashed e = Running l \<and> bad \<in> set l)" by simp
  from ball_update [OF inv this, of i] crash(4) show ?thesis by simp
next
  case (push_crash it todo r e)
  have "crashed (Crashed e) \<or> (\<exists>l. Crashed e = Running l \<and> bad \<in> set l)" by simp
  from ball_update [OF inv this, of i] push_crash(5) show ?thesis by simp
next
  case (push it todo r line)
  have "Running (it # todo) \<in> set (tasks s)" using push(1,2) by (metis nth_mem)
  with inv have "bad \<in> set (it # todo)" by auto
  moreover have "it \<noteq> bad" using push(3) runRequest_no_request [OF bad, of net] by auto
  ultimately have "bad \<in> set todo" by auto
  then have "crashed (Running todo) \<or> (\<exists>l. Running todo = Running l \<and> bad \<in> set l)" by simp
  from ball_update [OF inv this, of i] push(5) show ?thesis by simp
qed

lemma run_stuck:
  assumes "item.request bad = None" "bad \<in> set coll" "1 \<le> repetitions cfg"
  shows "\<forall>u \<in> set (tasks (run_events cfg coll evs)).
           crashed u \<or> (\<exists>l. u = Running l \<and> bad \<in> set l)"
proof (induction evs rule: rev_induct)
  case Nil
  have "0 < nat (repetitions cfg)" using assms(3) by simp
  then have "bad \<in> set (concat (replicate (nat (repetitions cfg)) coll))"
    using assms(2) by auto
  then show ?case by (simp add: tasks_start)
next
  case (snoc ev evs)
  obtain i net where ev: "ev = (i, net)" by (cases ev)
  from step_stuck [OF assms(1) snoc] show ?case unfolding ev run_events_snoc .
qed

lemma reach_sum_update:
  assumes "i < length (tasks s)"
  shows "sum_list (map reach (tasks (set_task i u s))) + reach (tasks s ! i)
           = sum_list (map reach (tasks s)) + reach u"
  using sum_list_map_update [OF assms, of reach u] by simp

lemma step_reach:
  "length (results (step t s (i, net))) + sum_list (map reach (tasks (step t s (i, net))))
     \<le> length (results s) + sum_list (map reach (tasks s))"
proof (cases rule: step_cases [where t = t and s = s and i = i and net = net])
  case idle
  then show ?thesis by simp
next
  case resolve
  with reach_sum_update [OF resolve(1), of Resolved] show ?thesis by simp
next
  case (crash it todo e)
  with reach_sum_update [OF crash(1), of "Crashed e"] show ?thesis by simp
next
  case (push_crash it todo r e)
  let ?s' = "s\<lparr>results := results s @ [r], completedRequests := Suc (completedRequests s)\<rparr>"
  have "item.request it \<noteq> None" using push_crash(3) by (rule runRequest_has_request)
  then have "reach (tasks s ! i) = Suc (reach (Running todo))" using push_crash(2) by simp
  moreover have "i < length (tasks ?s')" using push_crash(1) by simp
  from reach_sum_update [OF this, of "Crashed e"]
  have "sum_list (map reach (tasks (step t s (i, net)))) + reach (tasks s ! i)
          = sum_list (map reach (tasks s))" using push_crash(5) by simp
  ultimately show ?thesis using push_crash(5) by simp
next
  case (push it todo r line)
  let ?s' = "s\<lparr>results := results s @ [r], completedRequests := Suc (completedRequests s),
            stdout := stdout s @ [line]\<rparr>"
  have "item.request it \<noteq> None" using push(3) by (rule runRequest_has_request)
  then have "reach (tasks s ! i) = Suc (reach (Running todo))" using push(2) by simp
  moreover have "i < length (tasks ?s')" using push(1) by simp
  from reach_sum_update [OF this, of "Running todo"]
  have "sum_list (map reach (tasks (step t s (i, net)))) + reach (tasks s ! i)
          = sum_list (map reach (tasks s)) + reach (Running todo)" using push(5) by simp
  ultimately show ?thesis using push(5) by simp
qed

lemma takeWhile_concat_replicate:
  assumes "x \<in> set xs" "\<not> P x"
  shows "takeWhile P (concat (replicate (Suc n) xs)) = takeWhile P xs"
  using assms by (simp add: takeWhile_append1)

lemma run_reach:
  assumes "item.request bad = None" "bad \<in> set coll" "1 \<le> repetitions cfg"
  shows "length (results (run_events cfg coll evs))
           + sum_list (map reach (tasks (run_events cfg coll evs)))
         \<le> spawned cfg * length (takeWhile (\<lambda>it. item.request it \<noteq> None) coll)"
proof (induction evs rule: rev_induct)
  case Nil
  obtain n where n: "nat (repetitions cfg) = Suc n" using assms(3) by (cases "nat (repetitions cfg)") simp_all
  have "takeWhile (\<lambda>it. item.request it \<noteq> None) (concat (replicate (Suc n) coll))
          = takeWhile (\<lambda>it. item.request it \<noteq> None) coll"
    using assms(2) by (rule takeWhile_concat_replicate) (simp add: assms(1))
  then show ?case by (simp add: tasks_start n sum_list_replicate del: replicate.simps)
next
  case (snoc ev evs)
  obtain i net where ev: "ev = (i, net)" by (cases ev)
  from step_reach [of "totalRequests cfg coll" "run_events cfg coll evs" i net] snoc
  show ?case unfolding ev run_events_snoc by simp
qed

lemma step_prefix:
  assumes res: "\<forall>r \<in> set (results s). \<exists>x \<in> set pre. result.name r = item.name x"
    and inv: "\<forall>u \<in> set (tasks s). \<forall>l. u = Running l \<longrightarrow>
               set (takeWhile (\<lambda>x. item.request x \<noteq> None) l) \<subseteq> set pre"
  shows "(\<forall>r \<in> set (results (step t s (i, net))). \<exists>x \<in> set pre. result.name r = item.name x)
    \<and> (\<forall>u \<in> set (tasks (step t s (i, net))). \<forall>l. u = Running l \<longrightarrow>
               set (takeWhile (\<lambda>x. item.request x \<noteq> None) l) \<subseteq> set pre)"
proof (cases rule: step_cases [where t = t and s = s and i = i and net = net])
  case idle
  with res inv show ?thesis by simp
next
  case resolve
  have "\<forall>l. Resolved = Running l \<longrightarrow>
          set (takeWhile (\<lambda>x. item.request x \<noteq> None) l) \<subseteq> set pre" by simp
  from ball_update [OF inv this, of i] res resolve(3) show ?thesis by simp
next
  case (crash it todo e)
  have "\<forall>l. Crashed e = Running l \<longrightarrow>
          set (takeWhile (\<lambda>x. item.request x \<noteq> None) l) \<subseteq> set pre" by simp
  from ball_update [OF inv this, of i] res crash(4) show ?thesis by simp
next
  case (push_crash it todo r e)
  have "Running (it # todo) \<in> set (tasks s)" using push_crash(1,2) by (metis nth_mem)
  with inv have "set (takeWhile (\<lambda>x. item.request x \<noteq> None) (it # todo)) \<subseteq> set pre" by blast
  moreover have "item.request it \<noteq> None" using push_crash(3) by (rule runRequest_has_request)
  ultimately have "it \<in> set pre" by auto
  moreover have "result.name r = item.name it" using push_crash(3) by (rule runRequest_name)
  ultimately have new: "\<exists>x \<in> set pre. result.name r = item.name x" by blast
  have "\<forall>l. Crashed e = Running l \<longrightarrow>
          set (takeWhile (\<lambda>x. item.request x \<noteq> None) l) \<subseteq> set pre" by simp
  from ball_update [OF inv this, of i] res new push_crash(5) show ?thesis by simp
next
  case (push it todo r line)
  have "Running (it # todo) \<in> set (tasks s)" using push(1,2) by (metis nth_mem)
  with inv have "set (takeWhile (\<lambda>x. item.request x \<noteq> None) (it # todo)) \<subseteq> set pre" by blast
  moreover have "item.request it \<noteq> None" using push(3) by (rule runRequest_has_request)
  ultimately have "it \<in> set pre"
    and sub: "set (takeWhile (\<lambda>x. item.request x \<noteq> None) todo) \<subseteq> set pre" by auto
  moreover have "result.name r = item.name it" using push(3) by (rule runRequest_name)
  ultimately have new: "\<exists>x \<in> set pre. result.name r = item.name x" by blast
  from sub have "\<forall>l. Running todo = Running l \<longrightarrow>
          set (takeWhile (\<lambda>x. item.request x \<noteq> None) l) \<subseteq> set pre" by simp
  from ball_update [OF inv this, of i] res new push(5) show ?thesis by simp
qed

lemma run_prefix:
  assumes "item.request bad = None" "bad \<in> set coll" "1 \<le> repetitions cfg"
  shows "(\<forall>r \<in> set (results (run_events cfg coll evs)).
            \<exists>x \<in> set (takeWhile (\<lambda>x. item.request x \<noteq> None) coll). result.name r = item.name x)
    \<and> (\<forall>u \<in> set (tasks (run_events cfg coll evs)). \<forall>l. u = Running l \<longrightarrow>
            set (takeWhile (\<lambda>x. item.request x \<noteq> None) l)
              \<subseteq> set (takeWhile (\<lambda>x. item.request x \<noteq> None) coll))"
proof (induction evs rule: rev_induct)
  case Nil
  obtain n where n: "nat (repetitions cfg) = Suc n" using assms(3) by (cases "nat (repetitions cfg)") simp_all
  have "takeWhile (\<lambda>it. item.request it \<noteq> None) (concat (replicate (Suc n) coll))
          = takeWhile (\<lambda>it. item.request it \<noteq> None) coll"
    using assms(2) by (rule takeWhile_concat_replicate) (simp add: assms(1))
  then show ?case by (simp add: tasks_start n del: replicate.simps)
next
  case (snoc ev evs)
  obtain i net where ev: "ev = (i, net)" by (cases ev)
  from snoc show ?case unfolding ev run_events_snoc by (intro step_prefix) simp_all
qed

text \<open>
  Claim C4, as the code has it. For a template without \<open>request\<close>, \<^verbatim>\<open>runRequest\<close> throws a
  \<^verbatim>\<open>TypeError\<close> before any request is sent, and nothing catches it. With \<open>users \<ge> 1\<close> and
  \<open>repetitions \<ge> 1\<close> no user is ever resolved, so the run never completes and no summary is
  shown; and the results that the users push are all for templates before the first such
  entry, one per user and template at most.
\<close>

theorem missing_request_stops_user:
  assumes "it \<in> set collection" and "item.request it = None"
    and "1 \<le> users cfg" and "1 \<le> repetitions cfg"
  shows "runRequest net it = Inl TypeError
    \<and> \<not> all_resolved (run_events cfg collection evs)
    \<and> (loadCollection json = collection \<longrightarrow> simulateLoad maxargs cfg json evs = None)
    \<and> length (results (run_events cfg collection evs))
        \<le> nat (users cfg) * length (takeWhile (\<lambda>x. item.request x \<noteq> None) collection)
    \<and> (\<forall>r \<in> set (results (run_events cfg collection evs)).
          \<exists>x \<in> set (takeWhile (\<lambda>x. item.request x \<noteq> None) collection).
            result.name r = item.name x)"
proof -
  let ?s = "run_events cfg collection evs"
  have a: "runRequest net it = Inl TypeError" using assms(2) by (rule runRequest_no_request)
  have b: "\<not> all_resolved ?s"
  proof (cases "users cfg < 2 ^ 32")
    case False
    then have "thrown ?s \<noteq> None" by (simp only: thrown_run) simp
    then show ?thesis by (simp add: all_resolved_def)
  next
    case True
    then have "tasks ?s \<noteq> []"
      using length_tasks_run [of cfg collection evs] assms(3) by (auto simp: spawned_eq)
    then obtain u where u: "u \<in> set (tasks ?s)" by (cases "tasks ?s") auto
    with run_stuck [OF assms(2,1,4), of evs] have "u \<noteq> Resolved" by auto
    with u show ?thesis by (auto simp: all_resolved_def list_all_iff)
  qed
  then have c: "simulateLoad maxargs cfg json evs = None" if "loadCollection json = collection"
    using that by (simp add: simulateLoad_def)
  from run_reach [OF assms(2,1,4), of evs]
  have "length (results ?s)
        \<le> spawned cfg * length (takeWhile (\<lambda>x. item.request x \<noteq> None) collection)" by simp
  also have "\<dots> \<le> nat (users cfg) * length (takeWhile (\<lambda>x. item.request x \<noteq> None) collection)"
    using spawned_le [of cfg] by (rule mult_le_mono1)
  finally have d: "length (results ?s)
        \<le> nat (users cfg) * length (takeWhile (\<lambda>x. item.request x \<noteq> None) collection)" .
  from run_prefix [OF assms(2,1,4), of evs]
  have e: "\<forall>r \<in> set (results ?s).
          \<exists>x \<in> set (takeWhile (\<lambda>x. item.request x \<noteq> None) collection).
            result.name r = item.name x" by simp
  from a b c d e show ?thesis by simp
qed

text \<open>
  Claim C4 as stated fails: with the collection \<open>[folder, ping]\<close> the only user stops at
  \<open>folder\<close>; \<open>ping\<close>, which alone would give a result, is never requested, and the run
  does not complete.
\<close>

theorem missing_request_counterexample:
  "runRequest ok50 folder = Inl TypeError
   \<and> runRequest ok50 ping = Inr \<lparr>name = ''ping'', status = 200, duration = 50, success = True\<rparr>
   \<and> results (run_events cfg1 [folder, ping] same_user_thrice) = []
   \<and> tasks (run_events cfg1 [folder, ping] same_user_thrice) = [Crashed TypeError]
   \<and> simulateLoad node_arguments cfg1 \<lparr>item = Some [folder, ping]\<rparr> same_user_thrice = None
   \<and> results (run_events cfg1 [ping] same_user_thrice)
       = [\<lparr>name = ''ping'', status = 200, duration = 50, success = True\<rparr>]"
proof -
  have a: "runRequest ok50 folder = Inl TypeError
     \<and> runRequest ok50 ping
         = Inr \<lparr>name = ''ping'', status = 200, duration = 50, success = True\<rparr>
     \<and> results (run_events cfg1 [folder, ping] same_user_thrice) = []
     \<and> tasks (run_events cfg1 [folder, ping] same_user_thrice) = [Crashed TypeError]
     \<and> results (run_events cfg1 [ping] same_user_thrice)
         = [\<lparr>name = ''ping'', status = 200, duration = 50, success = True\<rparr>]"
    by code_simp
  then have "\<not> all_resolved (run_events cfg1 [folder, ping] same_user_thrice)"
    by (simp add: all_resolved_def)
  then have "simulateLoad node_arguments cfg1 \<lparr>item = Some [folder, ping]\<rparr> same_user_thrice
               = None"
    by (simp add: simulateLoad_def loadCollection_def)
  with a show ?thesis by simp
qed

theorem missing_request_stops_user_witness:
  "folder \<in> set [ping, folder] \<and> item.request folder = None
   \<and> 1 \<le> users cfg1 \<and> 1 \<le> repetitions cfg1
   \<and> \<not> all_resolved (run_events cfg1 [ping, folder] same_user_thrice)
   \<and> results (run_events cfg1 [ping, folder] same_user_thrice)
       = [\<lparr>name = ''ping'', status = 200, duration = 50, success = True\<rparr>]
   \<and> length (results (run_events cfg1 [ping, folder] same_user_thrice)) \<le> 1"
proof -
  have a: "folder \<in> set [ping, folder]" by simp
  have b: "item.request folder = None" by (simp add: folder_def)
  have c: "1 \<le> users cfg1" and d: "1 \<le> repetitions cfg1" by (simp_all add: cfg1_def)
  have e: "results (run_events cfg1 [ping, folder] same_user_thrice)
       = [\<lparr>name = ''ping'', status = 200, duration = 50, success = True\<rparr>]" by code_simp
  from missing_request_stops_user [OF a b c d, of ok50 same_user_thrice]
  have "\<not> all_resolved (run_events cfg1 [ping, folder] same_user_thrice)"
    and "length (results (run_events cfg1 [ping, folder] same_user_thrice)) \<le> 1"
    by (simp_all add: cfg1_def ping_def folder_def)
  with a b c d e show ?thesis by simp
qed

end
